theory Spec2Isabelle
  imports Main "HOL-Library.Word"
begin

unbundle bit_operations_syntax

section \<open>The ION system heap (\<open>ion_system_heap.c\<close>)\<close>

text \<open>
  The heap assembles a buffer from page runs of descending power-of-two size, taken from
  per-order page pools, and hands pages back to those pools (or to the page allocator)
  when a buffer is freed or an allocation is rolled back.

  The page pools, the page allocator, \<open>kmalloc\<close> and the scatter-list helpers live
  outside \<open>ion_system_heap.c\<close>. Their answers are not determined by the heap, so the
  model takes them from an environment, and the calls the heap makes to them are
  appended to a trace. The trace is the heap's observable effect on memory: which pool
  was asked for a page, which page went back to which pool, which page was freed
  directly.
\<close>

subsection \<open>Machine types and configuration constants\<close>

text \<open>
  The model is the 32-bit (ILP32) build: \<open>unsigned long\<close>, \<open>unsigned int\<close> and
  \<open>int\<close> are 32 bits wide. Arithmetic on words wraps around; \<open><\<close> on words is the
  unsigned comparison, signed comparisons are written \<open><s\<close> and \<open>\<le>s\<close>.
\<close>

type_synonym ulong = "32 word"
type_synonym uint = "32 word"
type_synonym cint = "32 word"
type_synonym gfp_t = "32 word"

text \<open>
  Modelled from the spec: \<open>PAGE_SHIFT\<close>, \<open>PAGE_SIZE\<close> and \<open>PAGE_ALIGN\<close> come from
  \<open>asm/page.h\<close> and \<open>linux/mm.h\<close>, which are not part of the sources. The spec treats
  the page size as a configuration constant; the model fixes the usual 4096 bytes.
  \<open>PAGE_ALIGN(x)\<close> is \<open>(x + PAGE_SIZE - 1) & ~(PAGE_SIZE - 1)\<close>.
\<close>

definition PAGE_SHIFT :: nat where
  "PAGE_SHIFT = 12"

definition PAGE_SIZE :: ulong where
  "PAGE_SIZE = push_bit PAGE_SHIFT 1"

definition PAGE_ALIGN :: "ulong \<Rightarrow> ulong" where
  "PAGE_ALIGN x = (x + (PAGE_SIZE - 1)) AND NOT (PAGE_SIZE - 1)"

text \<open>\<open>static const unsigned int orders[] = {8, 4, 0}\<close> and its \<open>ARRAY_SIZE\<close>.\<close>

definition orders :: "uint list" where
  "orders = [8, 4, 0]"

definition num_orders :: nat where
  "num_orders = length orders"

datatype error = EINVAL | ENOMEM | BUG

text \<open>
  \<open>order_to_index\<close>: the linear search of the table; falling out of the loop is \<open>BUG()\<close>.
\<close>

fun order_to_index_from :: "uint list \<Rightarrow> nat \<Rightarrow> uint \<Rightarrow> error + nat" where
  "order_to_index_from [] i order = Inl BUG"
| "order_to_index_from (x # xs) i order =
     (if order = x then Inr i else order_to_index_from xs (Suc i) order)"

definition order_to_index :: "uint \<Rightarrow> error + nat" where
  "order_to_index order = order_to_index_from orders 0 order"

text \<open>\<open>order_to_size\<close>: \<open>PAGE_SIZE << order\<close>.\<close>

definition order_to_size :: "uint \<Rightarrow> uint" where
  "order_to_size order = push_bit (unat order) PAGE_SIZE"

text \<open>
  Modelled from the spec: \<open>get_order\<close> is declared in \<open>asm-generic/getorder.h\<close>, which
  is not part of the sources. The spec describes it as the smallest power-of-two order
  whose run covers the length. \<open>get_order_from\<close> searches the orders upwards; order 20
  is the largest one a 32-bit size can need. For a size of 0 the kernel leaves the result
  open; the search returns 0. The heap only calls it on the lengths of page runs and on
  the length handed to the contiguous heap.
\<close>

function get_order_from :: "nat \<Rightarrow> ulong \<Rightarrow> nat" where
  "get_order_from k len =
     (if 20 \<le> k \<or> unat len \<le> 2 ^ (PAGE_SHIFT + k) then k else get_order_from (Suc k) len)"
  by pat_completeness auto
termination
  by (relation "measure (\<lambda>(k, len). 20 - k)") auto

definition get_order :: "ulong \<Rightarrow> cint" where
  "get_order len = of_nat (get_order_from 0 len)"

subsection \<open>Data model\<close>

text \<open>
  A \<open>struct page *\<close> is a page-frame handle; \<open>page + i\<close> is the handle \<open>i\<close> frames on.
  A \<open>struct ion_page_pool *\<close> is an opaque handle. A scatter list is the list of its
  entries, each a page and a length in bytes.
\<close>

type_synonym page = nat
type_synonym pool = nat
type_synonym sg_table = "(page \<times> uint) list"

record ion_system_heap =
  uncached_pools :: "nat \<Rightarrow> pool"
  cached_pools :: "nat \<Rightarrow> pool"

record page_info =
  page :: page
  order :: uint

text \<open>
  Modelled from the spec: \<open>struct ion_buffer\<close> is declared in \<open>ion_priv.h\<close>, which is
  not part of the sources. \<open>buffer_cached\<close> is what \<open>ion_buffer_cached(buffer)\<close>
  returns (the caller's cacheability flag), \<open>shrinker_free\<close> is the test
  \<open>buffer->private_flags & ION_PRIV_FLAG_SHRINKER_FREE\<close>. The framework stores the
  table returned by \<open>map_dma\<close> (which is \<open>priv_virt\<close>) in \<open>buffer->sg_table\<close>, the field
  \<open>buffer_sg_table\<close> here.
\<close>

record ion_buffer =
  buffer_cached :: bool
  shrinker_free :: bool
  priv_virt :: "sg_table option"
  buffer_sg_table :: sg_table

subsection \<open>The environment and the trace\<close>

text \<open>
  One event per call that leaves the file and takes, returns, zeroes or frees pages, or
  that can fail, with its arguments and its answer. \<open>kfree\<close>, the list and
  scatter-list accessors, and the timing and debug calls are not traced: they cannot
  fail and do not move pages. \<open>Kmalloc\<close> stands for the \<open>kmalloc\<close> of a
  \<open>page_info\<close> or of an \<open>sg_table\<close>; \<open>Free_pages\<close> is \<open>__free_pages(page, order)\<close>
  and \<open>Free_page\<close> is \<open>__free_page(page)\<close>.
\<close>

datatype event =
    Kmalloc bool
  | Page_pool_alloc pool "page option"
  | Page_pool_free pool page
  | Free_pages page uint
  | Sg_alloc_table uint "error option"
  | Buffer_zero sg_table
  | Page_pool_shrink pool gfp_t cint cint
  | Alloc_pages cint "page option"
  | Split_page page cint
  | Free_page page
  | Sync_for_device page ulong

text \<open>
  The environment answers each fallible call. Every answer may depend on the whole
  history, so any behaviour of the pools and allocators is some environment.
  \<open>kmalloc\<close> says whether the next \<open>kmalloc\<close> succeeds, \<open>sg_alloc_table\<close> returns
  \<open>None\<close> for 0 and the error otherwise.
\<close>

record env =
  totalram_pages :: ulong
  kmalloc :: "event list \<Rightarrow> bool"
  ion_page_pool_alloc :: "event list \<Rightarrow> pool \<Rightarrow> page option"
  sg_alloc_table :: "event list \<Rightarrow> uint \<Rightarrow> error option"
  ion_page_pool_shrink :: "event list \<Rightarrow> pool \<Rightarrow> gfp_t \<Rightarrow> cint \<Rightarrow> cint"
  alloc_pages :: "event list \<Rightarrow> cint \<Rightarrow> page option"

subsection \<open>Taking and returning one page run\<close>

definition alloc_buffer_page ::
  "env \<Rightarrow> ion_system_heap \<Rightarrow> ion_buffer \<Rightarrow> uint \<Rightarrow> event list
     \<Rightarrow> (error + page option) \<times> event list" where
  "alloc_buffer_page E heap buffer ord t =
     (case order_to_index ord of
        Inl e \<Rightarrow> (Inl e, t)
      | Inr idx \<Rightarrow>
          (let pool = (if \<not> buffer_cached buffer then uncached_pools heap idx
                       else cached_pools heap idx);
               pg = ion_page_pool_alloc E t pool
           in (Inr pg, t @ [Page_pool_alloc pool pg])))"

definition free_buffer_page ::
  "ion_system_heap \<Rightarrow> ion_buffer \<Rightarrow> page \<Rightarrow> uint \<Rightarrow> event list
     \<Rightarrow> (error + unit) \<times> event list" where
  "free_buffer_page heap buffer pg ord t =
     (if shrinker_free buffer then (Inr (), t @ [Free_pages pg ord])
      else (case order_to_index ord of
              Inl e \<Rightarrow> (Inl e, t)
            | Inr idx \<Rightarrow>
                (let pool = (if buffer_cached buffer then cached_pools heap idx
                             else uncached_pools heap idx)
                 in (Inr (), t @ [Page_pool_free pool pg]))))"

subsection \<open>\<open>alloc_largest_available\<close>\<close>

text \<open>
  The scan of the order table, from the entry reached so far. Running off the table is
  the \<open>kfree(info); return NULL\<close> after the loop.
\<close>

fun alloc_scan ::
  "env \<Rightarrow> ion_system_heap \<Rightarrow> ion_buffer \<Rightarrow> ulong \<Rightarrow> uint \<Rightarrow> uint list \<Rightarrow> event list
     \<Rightarrow> (error + page_info option) \<times> event list" where
  "alloc_scan E heap buffer sz max_order [] t = (Inr None, t)"
| "alloc_scan E heap buffer sz max_order (ord # rest) t =
     (if sz < order_to_size ord then alloc_scan E heap buffer sz max_order rest t
      else if max_order < ord then alloc_scan E heap buffer sz max_order rest t
      else (case alloc_buffer_page E heap buffer ord t of
              (Inl e, t') \<Rightarrow> (Inl e, t')
            | (Inr None, t') \<Rightarrow> alloc_scan E heap buffer sz max_order rest t'
            | (Inr (Some pg), t') \<Rightarrow> (Inr (Some \<lparr>page = pg, order = ord\<rparr>), t')))"

definition alloc_largest_available ::
  "env \<Rightarrow> ion_system_heap \<Rightarrow> ion_buffer \<Rightarrow> ulong \<Rightarrow> uint \<Rightarrow> event list
     \<Rightarrow> (error + page_info option) \<times> event list" where
  "alloc_largest_available E heap buffer sz max_order t =
     (if \<not> kmalloc E t then (Inr None, t @ [Kmalloc False])
      else alloc_scan E heap buffer sz max_order orders (t @ [Kmalloc True]))"

subsection \<open>\<open>ion_system_heap_allocate\<close>\<close>

text \<open>The byte length of a run: \<open>(1 << info->order) * PAGE_SIZE\<close>.\<close>

definition run_bytes :: "uint \<Rightarrow> ulong" where
  "run_bytes ord = push_bit (unat ord) 1 * PAGE_SIZE"

text \<open>
  The \<open>while (size_remaining > 0)\<close> loop. It may not return, so it is a partial
  function: \<open>None\<close> is a loop that runs forever. It ends with \<open>Inr True\<close> when the
  remainder reaches zero, with \<open>Inr False\<close> at \<open>goto err\<close>, and with \<open>Inl BUG\<close> if a
  lookup trapped.
\<close>

partial_function (option) alloc_loop ::
  "env \<Rightarrow> ion_system_heap \<Rightarrow> ion_buffer \<Rightarrow> ulong \<Rightarrow> uint \<Rightarrow> page_info list \<Rightarrow> cint
     \<Rightarrow> event list \<Rightarrow> ((error + bool) \<times> page_info list \<times> cint \<times> event list) option" where
  "alloc_loop E heap buffer size_remaining max_order pages i t =
     (if size_remaining > 0 then
        (case alloc_largest_available E heap buffer size_remaining max_order t of
           (Inl e, t') \<Rightarrow> Some (Inl e, pages, i, t')
         | (Inr None, t') \<Rightarrow> Some (Inr False, pages, i, t')
         | (Inr (Some info), t') \<Rightarrow>
             alloc_loop E heap buffer (size_remaining - run_bytes (order info)) (order info)
               (pages @ [info]) (i + 1) t')
      else Some (Inr True, pages, i, t))"

declare alloc_loop.simps [code]

text \<open>The \<open>err:\<close> label: every page on the list goes through \<open>free_buffer_page\<close>.\<close>

fun allocate_err ::
  "ion_system_heap \<Rightarrow> ion_buffer \<Rightarrow> page_info list \<Rightarrow> event list
     \<Rightarrow> (error + ion_buffer) \<times> event list" where
  "allocate_err heap buffer [] t = (Inl ENOMEM, t)"
| "allocate_err heap buffer (info # rest) t =
     (case free_buffer_page heap buffer (page info) (order info) t of
        (Inl e, t') \<Rightarrow> (Inl e, t')
      | (Inr _, t') \<Rightarrow> allocate_err heap buffer rest t')"

text \<open>The scatter list filled from the page list, one entry per run, in list order.\<close>

definition fill_table :: "page_info list \<Rightarrow> sg_table" where
  "fill_table pages = map (\<lambda>info. (page info, run_bytes (order info))) pages"

definition ion_system_heap_allocate ::
  "env \<Rightarrow> ion_system_heap \<Rightarrow> ion_buffer \<Rightarrow> ulong \<Rightarrow> ulong \<Rightarrow> ulong \<Rightarrow> event list
     \<Rightarrow> ((error + ion_buffer) \<times> event list) option" where
  "ion_system_heap_allocate E heap buffer sz align flags t =
     (let size_remaining = PAGE_ALIGN sz; max_order = orders ! 0 in
      if align > PAGE_SIZE then Some (Inl EINVAL, t)
      else if sz div PAGE_SIZE > totalram_pages E div 2 then Some (Inl ENOMEM, t)
      else
        (case alloc_loop E heap buffer size_remaining max_order [] 0 t of
           None \<Rightarrow> None
         | Some (Inl e, pages, i, t1) \<Rightarrow> Some (Inl e, t1)
         | Some (Inr False, pages, i, t1) \<Rightarrow> Some (allocate_err heap buffer pages t1)
         | Some (Inr True, pages, i, t1) \<Rightarrow>
             (if \<not> kmalloc E t1 then
                Some (allocate_err heap buffer pages (t1 @ [Kmalloc False]))
              else
                (let t2 = t1 @ [Kmalloc True] in
                 case sg_alloc_table E t2 i of
                   Some e \<Rightarrow>
                     Some (allocate_err heap buffer pages (t2 @ [Sg_alloc_table i (Some e)]))
                 | None \<Rightarrow>
                     Some (Inr (buffer\<lparr>priv_virt := Some (fill_table pages)\<rparr>),
                           t2 @ [Sg_alloc_table i None])))))"

subsection \<open>\<open>ion_system_heap_free\<close> and \<open>ion_system_heap_map_dma\<close>\<close>

text \<open>
  The \<open>for_each_sg\<close> loop: each entry goes through \<open>free_buffer_page\<close> with the order
  recomputed from its length.
\<close>

fun free_sg ::
  "ion_system_heap \<Rightarrow> ion_buffer \<Rightarrow> sg_table \<Rightarrow> event list \<Rightarrow> (error + unit) \<times> event list" where
  "free_sg heap buffer [] t = (Inr (), t)"
| "free_sg heap buffer ((pg, len) # rest) t =
     (case free_buffer_page heap buffer pg (get_order len) t of
        (Inl e, t') \<Rightarrow> (Inl e, t')
      | (Inr _, t') \<Rightarrow> free_sg heap buffer rest t')"

definition ion_system_heap_free ::
  "ion_system_heap \<Rightarrow> ion_buffer \<Rightarrow> event list \<Rightarrow> (error + unit) \<times> event list" where
  "ion_system_heap_free heap buffer t =
     (let table = buffer_sg_table buffer;
          t1 = (if \<not> shrinker_free buffer then t @ [Buffer_zero table] else t)
      in free_sg heap buffer table t1)"

definition ion_system_heap_map_dma :: "ion_buffer \<Rightarrow> sg_table option" where
  "ion_system_heap_map_dma buffer = priv_virt buffer"

subsection \<open>\<open>ion_system_heap_shrink\<close>\<close>

text \<open>
  The draining loop over the pool indices still to visit. It returns as soon as
  \<open>nr_freed >= nr_to_scan\<close> (a signed comparison) holds after a pool was asked.
\<close>

fun shrink_drain ::
  "env \<Rightarrow> ion_system_heap \<Rightarrow> gfp_t \<Rightarrow> cint \<Rightarrow> nat list \<Rightarrow> cint \<Rightarrow> event list
     \<Rightarrow> cint \<times> event list" where
  "shrink_drain E heap gfp_mask nr_to_scan [] nr_freed t = (nr_freed, t)"
| "shrink_drain E heap gfp_mask nr_to_scan (i # rest) nr_freed t =
     (let r1 = ion_page_pool_shrink E t (uncached_pools heap i) gfp_mask nr_to_scan;
          t1 = t @ [Page_pool_shrink (uncached_pools heap i) gfp_mask nr_to_scan r1];
          nr_freed1 = nr_freed + r1
      in if nr_to_scan \<le>s nr_freed1 then (nr_freed1, t1)
         else
           (let r2 = ion_page_pool_shrink E t1 (cached_pools heap i) gfp_mask nr_to_scan;
                t2 = t1 @ [Page_pool_shrink (cached_pools heap i) gfp_mask nr_to_scan r2];
                nr_freed2 = nr_freed1 + r2
            in if nr_to_scan \<le>s nr_freed2 then (nr_freed2, t2)
               else shrink_drain E heap gfp_mask nr_to_scan rest nr_freed2 t2))"

text \<open>The loop after the \<open>end:\<close> label: every pool is asked with a count of 0.\<close>

fun shrink_total ::
  "env \<Rightarrow> ion_system_heap \<Rightarrow> gfp_t \<Rightarrow> nat list \<Rightarrow> cint \<Rightarrow> event list \<Rightarrow> cint \<times> event list" where
  "shrink_total E heap gfp_mask [] nr_total t = (nr_total, t)"
| "shrink_total E heap gfp_mask (i # rest) nr_total t =
     (let r1 = ion_page_pool_shrink E t (uncached_pools heap i) gfp_mask 0;
          t1 = t @ [Page_pool_shrink (uncached_pools heap i) gfp_mask 0 r1];
          r2 = ion_page_pool_shrink E t1 (cached_pools heap i) gfp_mask 0;
          t2 = t1 @ [Page_pool_shrink (cached_pools heap i) gfp_mask 0 r2]
      in shrink_total E heap gfp_mask rest (nr_total + r1 + r2) t2)"

definition ion_system_heap_shrink ::
  "env \<Rightarrow> ion_system_heap \<Rightarrow> gfp_t \<Rightarrow> cint \<Rightarrow> event list \<Rightarrow> cint \<times> event list" where
  "ion_system_heap_shrink E heap gfp_mask nr_to_scan t =
     (let t1 = (if nr_to_scan = 0 then t
                else snd (shrink_drain E heap gfp_mask nr_to_scan [0..<num_orders] 0 t))
      in shrink_total E heap gfp_mask [0..<num_orders] 0 t1)"

subsection \<open>\<open>ion_system_contig_heap_allocate\<close>\<close>



subsection \<open>Reading a trace\<close>

text \<open>
  The pages a trace shows as taken from a pool, as given back to a pool, and as freed
  directly to the page allocator with their order, each in the order of the calls.
\<close>

fun acquired :: "event list \<Rightarrow> (pool \<times> page) list" where
  "acquired [] = []"
| "acquired (Page_pool_alloc pool (Some pg) # evs) = (pool, pg) # acquired evs"
| "acquired (_ # evs) = acquired evs"

fun pool_frees :: "event list \<Rightarrow> (pool \<times> page) list" where
  "pool_frees [] = []"
| "pool_frees (Page_pool_free pool pg # evs) = (pool, pg) # pool_frees evs"
| "pool_frees (_ # evs) = pool_frees evs"

fun direct_frees :: "event list \<Rightarrow> (page \<times> uint) list" where
  "direct_frees [] = []"
| "direct_frees (Free_pages pg ord # evs) = (pg, ord) # direct_frees evs"
| "direct_frees (_ # evs) = direct_frees evs"

text \<open>
  The pool that belongs to a size class and a cacheability: the slot of the class's
  index in the bank. There is none for an order outside the table.
\<close>

definition class_pool :: "ion_system_heap \<Rightarrow> bool \<Rightarrow> uint \<Rightarrow> pool option" where
  "class_pool heap cached ord =
     (case order_to_index ord of
        Inl e \<Rightarrow> None
      | Inr idx \<Rightarrow> Some (if cached then cached_pools heap idx else uncached_pools heap idx))"

text \<open>
  \<open>assembled\<close>: the page list \<open>new\<close> is what the events \<open>evs\<close> took from the pools, run
  by run, each from the pool of its class, and \<open>evs\<close> gave nothing back.
\<close>

definition assembled :: "ion_system_heap \<Rightarrow> ion_buffer \<Rightarrow> page_info list \<Rightarrow> event list \<Rightarrow> bool" where
  "assembled heap buffer new evs \<longleftrightarrow>
     list_all2 (\<lambda>(pool, pg) info. pg = page info \<and>
                  class_pool heap (buffer_cached buffer) (order info) = Some pool)
       (acquired evs) new \<and>
     pool_frees evs = [] \<and> direct_frees evs = []"

definition total_bytes :: "page_info list \<Rightarrow> nat" where
  "total_bytes pages = sum_list (map (\<lambda>info. unat (run_bytes (order info))) pages)"

definition descending :: "page_info list \<Rightarrow> bool" where
  "descending pages = sorted_wrt (\<lambda>a b. order b \<le> order a) pages"


definition sg_orders :: "sg_table \<Rightarrow> cint list" where
  "sg_orders table = map (\<lambda>(pg, len). get_order len) table"


text \<open>Every pool of both banks, in the order in which the shrinker visits them.\<close>

definition heap_pools :: "ion_system_heap \<Rightarrow> pool list" where
  "heap_pools heap =
     concat (map (\<lambda>i. [uncached_pools heap i, cached_pools heap i]) [0..<num_orders])"

text \<open>
  The draining calls of a trace: the pool, the count asked for and the count released for
  every call of \<open>ion_page_pool_shrink\<close> with a nonzero count.
\<close>

fun drain_calls :: "event list \<Rightarrow> (pool \<times> cint \<times> cint) list" where
  "drain_calls [] = []"
| "drain_calls (Page_pool_shrink pool gfp_mask req ans # evs) =
     (if req = 0 then drain_calls evs else (pool, req, ans) # drain_calls evs)"
| "drain_calls (_ # evs) = drain_calls evs"

text \<open>
  The spec's reading of the draining loop: each pool is asked for at most the outstanding
  need, the target minus what the calls before it released.
\<close>

fun within_outstanding_need :: "cint \<Rightarrow> cint \<Rightarrow> (pool \<times> cint \<times> cint) list \<Rightarrow> bool" where
  "within_outstanding_need target freed [] = True"
| "within_outstanding_need target freed ((pool, req, ans) # rest) =
     (req \<le>s target - freed \<and> within_outstanding_need target (freed + ans) rest)"

subsection \<open>A page pool and an environment to run the heap in\<close>

text \<open>
  Modelled from the spec: the page pool (\<open>ion_page_pool.c\<close>) is not part of the
  sources. The spec's contract for it: a pool holds the free pages of one size class;
  shrink-by-count releases up to the requested number of pages and returns the number
  released, and with a count of zero it releases nothing and reports how many pages are
  resident. \<open>pool_resident\<close> replays a trace over the initial resident counts.
\<close>

fun pool_resident :: "(pool \<Rightarrow> nat) \<Rightarrow> event list \<Rightarrow> pool \<Rightarrow> nat" where
  "pool_resident init [] p = init p"
| "pool_resident init (Page_pool_shrink q gfp_mask req ans # evs) p =
     pool_resident (if req = 0 then init else init(q := init q - unat ans)) evs p"
| "pool_resident init (_ # evs) p = pool_resident init evs p"

definition pool_shrink_model ::
  "(pool \<Rightarrow> nat) \<Rightarrow> event list \<Rightarrow> pool \<Rightarrow> gfp_t \<Rightarrow> cint \<Rightarrow> cint" where
  "pool_shrink_model init t p gfp_mask req =
     (if req = 0 then of_nat (pool_resident init t p)
      else if req <s 0 then 0
      else of_nat (min (unat req) (pool_resident init t p)))"

text \<open>
  An environment with \<open>ram\<close> pages of memory, in which \<open>kmalloc\<close> and
  \<open>sg_alloc_table\<close> succeed, the pools hand out fresh pages until \<open>budget\<close> pages have
  been taken, and the pools start with \<open>init\<close> resident pages.
\<close>

definition example_env :: "ulong \<Rightarrow> nat \<Rightarrow> (pool \<Rightarrow> nat) \<Rightarrow> env" where
  "example_env ram budget init =
     \<lparr>totalram_pages = ram,
      kmalloc = (\<lambda>t. True),
      ion_page_pool_alloc =
        (\<lambda>t p. if length (acquired t) < budget then Some (100 + length t) else None),
      sg_alloc_table = (\<lambda>t n. None),
      ion_page_pool_shrink = pool_shrink_model init,
      alloc_pages = (\<lambda>t ord. Some 1000)\<rparr>"

text \<open>Initial pool contents: every pool empty, and every pool holding three pages.\<close>

definition empty_pools :: "pool \<Rightarrow> nat" where
  "empty_pools p = 0"

definition pools_of_three :: "pool \<Rightarrow> nat" where
  "pools_of_three p = 3"

text \<open>The same environment with pools that never run dry.\<close>

definition plentiful_env :: "ulong \<Rightarrow> env" where
  "plentiful_env ram =
     \<lparr>totalram_pages = ram,
      kmalloc = (\<lambda>t. True),
      ion_page_pool_alloc = (\<lambda>t p. Some (100 + length t)),
      sg_alloc_table = (\<lambda>t n. None),
      ion_page_pool_shrink = pool_shrink_model (\<lambda>p. 0),
      alloc_pages = (\<lambda>t ord. Some 1000)\<rparr>"

definition example_heap :: ion_system_heap where
  "example_heap = \<lparr>uncached_pools = (\<lambda>i. i), cached_pools = (\<lambda>i. 10 + i)\<rparr>"

definition example_buffer :: ion_buffer where
  "example_buffer =
     \<lparr>buffer_cached = False, shrinker_free = False, priv_virt = None,
      buffer_sg_table = []\<rparr>"

section \<open>Properties\<close>

subsection \<open>Tables, page alignment and one step of the assembly loop\<close>

lemma acquired_append [simp]: "acquired (xs @ ys) = acquired xs @ acquired ys"
  by (induction xs rule: acquired.induct) simp_all

lemma pool_frees_append [simp]: "pool_frees (xs @ ys) = pool_frees xs @ pool_frees ys"
  by (induction xs rule: pool_frees.induct) simp_all

lemma direct_frees_append [simp]: "direct_frees (xs @ ys) = direct_frees xs @ direct_frees ys"
  by (induction xs rule: direct_frees.induct) simp_all

lemma orders_cases: "ord \<in> set orders \<longleftrightarrow> ord = 8 \<or> ord = 4 \<or> ord = 0"
  by (auto simp: orders_def)

lemma order_to_index_table:
  "order_to_index 8 = Inr 0" "order_to_index 4 = Inr 1" "order_to_index 0 = Inr 2"
  by (simp_all add: order_to_index_def orders_def)


lemma run_bytes_table:
  "run_bytes 8 = 1048576" "run_bytes 4 = 65536" "run_bytes 0 = 4096"
  by (simp_all add: run_bytes_def PAGE_SIZE_def PAGE_SHIFT_def)

lemma order_to_size_table:
  "order_to_size 8 = 1048576" "order_to_size 4 = 65536" "order_to_size 0 = 4096"
  by (simp_all add: order_to_size_def PAGE_SIZE_def PAGE_SHIFT_def)

lemma PAGE_SIZE_val: "PAGE_SIZE = 4096" "unat PAGE_SIZE = 4096"
  by (simp_all add: PAGE_SIZE_def PAGE_SHIFT_def)







lemma get_order_table:
  "get_order 1048576 = 8" "get_order 65536 = 4" "get_order 4096 = 0"
  by (simp_all add: get_order_def PAGE_SHIFT_def)

lemma alloc_buffer_page_table:
  assumes "ord \<in> set orders"
  shows "\<exists>pool. class_pool heap (buffer_cached buffer) ord = Some pool \<and>
           alloc_buffer_page E heap buffer ord t =
             (Inr (ion_page_pool_alloc E t pool), t @ [Page_pool_alloc pool (ion_page_pool_alloc E t pool)])"
  using assms
  by (auto simp: orders_cases alloc_buffer_page_def class_pool_def order_to_index_table Let_def)


lemma alloc_scan_post:
  assumes "set ords \<subseteq> set orders"
    and "alloc_scan E heap buffer sz mo ords t = (r, t')"
  shows "\<exists>evs. t' = t @ evs \<and> pool_frees evs = [] \<and> direct_frees evs = [] \<and>
     (case r of
        Inl e \<Rightarrow> False
      | Inr None \<Rightarrow> acquired evs = []
      | Inr (Some info) \<Rightarrow>
          order info \<in> set ords \<and> order_to_size (order info) \<le> sz \<and> order info \<le> mo \<and>
          (\<exists>pool. class_pool heap (buffer_cached buffer) (order info) = Some pool \<and>
                  acquired evs = [(pool, page info)]))"
  using assms
proof (induction ords arbitrary: t)
  case Nil
  then show ?case by auto
next
  case (Cons ord rest)
  have sub: "set rest \<subseteq> set orders" and mem: "ord \<in> set orders"
    using Cons.prems(1) by auto
  show ?case
  proof (cases "sz < order_to_size ord \<or> mo < ord")
    case True
    then have "alloc_scan E heap buffer sz mo rest t = (r, t')"
      using Cons.prems(2) by (auto split: if_splits)
    from Cons.IH [OF sub this] show ?thesis
      by (auto split: sum.splits option.splits)
  next
    case False
    obtain pool where pool: "class_pool heap (buffer_cached buffer) ord = Some pool"
      and abp: "alloc_buffer_page E heap buffer ord t =
        (Inr (ion_page_pool_alloc E t pool), t @ [Page_pool_alloc pool (ion_page_pool_alloc E t pool)])"
      using alloc_buffer_page_table [OF mem] by blast
    show ?thesis
    proof (cases "ion_page_pool_alloc E t pool")
      case None
      then have "alloc_scan E heap buffer sz mo rest (t @ [Page_pool_alloc pool None]) = (r, t')"
        using Cons.prems(2) False abp by simp
      from Cons.IH [OF sub this] obtain evs where
        evs: "t' = (t @ [Page_pool_alloc pool None]) @ evs" "pool_frees evs = []" "direct_frees evs = []"
         "(case r of
            Inl e \<Rightarrow> False
          | Inr None \<Rightarrow> acquired evs = []
          | Inr (Some info) \<Rightarrow>
              order info \<in> set rest \<and> order_to_size (order info) \<le> sz \<and> order info \<le> mo \<and>
              (\<exists>pool. class_pool heap (buffer_cached buffer) (order info) = Some pool \<and>
                      acquired evs = [(pool, page info)]))"
        by blast
      show ?thesis
        apply (rule exI [of _ "Page_pool_alloc pool None # evs"])
        using evs by (auto split: sum.splits option.splits)
    next
      case (Some pg)
      then have "r = Inr (Some \<lparr>page = pg, order = ord\<rparr>)" "t' = t @ [Page_pool_alloc pool (Some pg)]"
        using Cons.prems(2) False abp by auto
      then show ?thesis
        using False pool by (auto simp: not_less)
    qed
  qed
qed

lemma alloc_largest_available_post:
  assumes "alloc_largest_available E heap buffer sz mo t = (r, t')"
  shows "\<exists>evs. t' = t @ evs \<and> pool_frees evs = [] \<and> direct_frees evs = [] \<and>
     (case r of
        Inl e \<Rightarrow> False
      | Inr None \<Rightarrow> acquired evs = []
      | Inr (Some info) \<Rightarrow>
          order info \<in> set orders \<and> order_to_size (order info) \<le> sz \<and> order info \<le> mo \<and>
          (\<exists>pool. class_pool heap (buffer_cached buffer) (order info) = Some pool \<and>
                  acquired evs = [(pool, page info)]))"
proof (cases "kmalloc E t")
  case False
  then show ?thesis
    using assms by (auto simp: alloc_largest_available_def)
next
  case True
  then have "alloc_scan E heap buffer sz mo orders (t @ [Kmalloc True]) = (r, t')"
    using assms by (simp add: alloc_largest_available_def)
  from alloc_scan_post [OF subset_refl this] obtain evs where
    evs: "t' = (t @ [Kmalloc True]) @ evs" "pool_frees evs = []" "direct_frees evs = []"
         "(case r of
            Inl e \<Rightarrow> False
          | Inr None \<Rightarrow> acquired evs = []
          | Inr (Some info) \<Rightarrow>
              order info \<in> set orders \<and> order_to_size (order info) \<le> sz \<and> order info \<le> mo \<and>
              (\<exists>pool. class_pool heap (buffer_cached buffer) (order info) = Some pool \<and>
                      acquired evs = [(pool, page info)]))"
    by blast
  show ?thesis
    apply (rule exI [of _ "Kmalloc True # evs"])
    using evs by (auto split: sum.splits option.splits)
qed


lemma run_step:
  assumes "ord \<in> set orders" and "order_to_size ord \<le> rem"
  shows "unat (rem - run_bytes ord) + unat (run_bytes ord) = unat rem \<and> 4096 \<le> unat (run_bytes ord)"
proof -
  have eq: "run_bytes ord = order_to_size ord" and big: "4096 \<le> unat (run_bytes ord)"
    using assms(1) by (auto simp: orders_cases run_bytes_table order_to_size_table)
  have "unat (rem - run_bytes ord) = unat rem - unat (run_bytes ord)"
    using assms(2) eq by (simp add: unat_sub)
  moreover have "unat (run_bytes ord) \<le> unat rem"
    using assms(2) eq by (simp add: word_le_nat_alt)
  ultimately show ?thesis using big by simp
qed

lemma alloc_loop_post:
  "alloc_loop E heap buffer rem mo pages i t = Some (r, pages', i', t') \<Longrightarrow>
   \<exists>new evs. pages' = pages @ new \<and> t' = t @ evs \<and> i' = i + of_nat (length new) \<and>
      assembled heap buffer new evs \<and>
      (\<forall>info \<in> set new. order info \<in> set orders \<and> order info \<le> mo) \<and>
      descending new \<and>
      (\<exists>ok. r = Inr ok \<and> (ok \<longrightarrow> total_bytes new = unat rem))"
proof (induction "unat rem" arbitrary: rem mo pages i t rule: less_induct)
  case less
  show ?case
  proof (cases "rem > 0")
    case False
    then have z: "rem = 0"
      by (simp add: word_neq_0_conv [symmetric])
    have "r = Inr True" "pages' = pages" "i' = i" "t' = t" "unat rem = 0"
      using less.prems unfolding z by (simp_all add: alloc_loop.simps [of E heap buffer 0])
    then show ?thesis
      by (intro exI [of _ "[]"]) (auto simp: assembled_def descending_def total_bytes_def)
  next
    case True
    obtain r1 t1 where step: "alloc_largest_available E heap buffer rem mo t = (r1, t1)"
      by (cases "alloc_largest_available E heap buffer rem mo t")
    from alloc_largest_available_post [OF step] obtain evs1 where
      evs1: "t1 = t @ evs1" "pool_frees evs1 = []" "direct_frees evs1 = []"
      and r1: "(case r1 of
            Inl e \<Rightarrow> False
          | Inr None \<Rightarrow> acquired evs1 = []
          | Inr (Some info) \<Rightarrow>
              order info \<in> set orders \<and> order_to_size (order info) \<le> rem \<and> order info \<le> mo \<and>
              (\<exists>pool. class_pool heap (buffer_cached buffer) (order info) = Some pool \<and>
                      acquired evs1 = [(pool, page info)]))"
      by blast
    show ?thesis
    proof (cases r1)
      case (Inl e)
      then show ?thesis using r1 by simp
    next
      case (Inr oi)
      show ?thesis
      proof (cases oi)
        case None
        then have "r = Inr False" "pages' = pages" "i' = i" "t' = t1"
          using less.prems True step Inr
          by (auto simp: alloc_loop.simps [of E heap buffer rem])
        then show ?thesis
          using evs1 r1 Inr None
          by (intro exI [of _ "[]"] exI [of _ evs1])
             (auto simp: assembled_def descending_def total_bytes_def)
      next
        case (Some info)
        then have info: "order info \<in> set orders" "order_to_size (order info) \<le> rem"
            "order info \<le> mo"
          and acq: "\<exists>pool. class_pool heap (buffer_cached buffer) (order info) = Some pool \<and>
                      acquired evs1 = [(pool, page info)]"
          using r1 Inr by auto
        have rec: "alloc_loop E heap buffer (rem - run_bytes (order info)) (order info)
                     (pages @ [info]) (i + 1) t1 = Some (r, pages', i', t')"
          using less.prems True step Inr Some
          by (simp add: alloc_loop.simps [of E heap buffer rem])
        have dec: "unat (rem - run_bytes (order info)) + unat (run_bytes (order info)) = unat rem"
          and pos: "4096 \<le> unat (run_bytes (order info))"
          using run_step [OF info(1,2)] by auto
        then have "unat (rem - run_bytes (order info)) < unat rem" by linarith
        from less.hyps [OF this rec] obtain new evs where
          IH: "pages' = (pages @ [info]) @ new" "t' = t1 @ evs"
              "i' = (i + 1) + of_nat (length new)"
              "assembled heap buffer new evs"
              "\<forall>x \<in> set new. order x \<in> set orders \<and> order x \<le> order info"
              "descending new"
              "\<exists>ok. r = Inr ok \<and> (ok \<longrightarrow> total_bytes new = unat (rem - run_bytes (order info)))"
          by blast
        show ?thesis
        proof (intro exI [of _ "info # new"] exI [of _ "evs1 @ evs"] conjI)
          show "pages' = pages @ info # new" using IH(1) by simp
          show "t' = t @ evs1 @ evs" using IH(2) evs1(1) by simp
          show "i' = i + of_nat (length (info # new))" using IH(3) by simp
          show "assembled heap buffer (info # new) (evs1 @ evs)"
            using IH(4) evs1 acq by (auto simp: assembled_def)
          show "\<forall>x \<in> set (info # new). order x \<in> set orders \<and> order x \<le> mo"
          proof
            fix x assume "x \<in> set (info # new)"
            then consider "x = info" | "x \<in> set new" by auto
            then show "order x \<in> set orders \<and> order x \<le> mo"
            proof cases
              case 1
              then show ?thesis using info by simp
            next
              case 2
              then have "order x \<in> set orders" "order x \<le> order info" using IH(5) by auto
              then show ?thesis using info(3) by (simp add: order_trans [of "order x" "order info" mo])
            qed
          qed
          show "descending (info # new)"
            using IH(5,6) by (simp add: descending_def)
          show "\<exists>ok. r = Inr ok \<and> (ok \<longrightarrow> total_bytes (info # new) = unat rem)"
          proof -
            obtain ok where ok: "r = Inr ok"
              "ok \<longrightarrow> total_bytes new = unat (rem - run_bytes (order info))"
              using IH(7) by blast
            have "total_bytes (info # new) = unat (run_bytes (order info)) + total_bytes new"
              by (simp add: total_bytes_def)
            then have "ok \<longrightarrow> total_bytes (info # new) = unat rem"
              using ok(2) dec by linarith
            then show ?thesis using ok(1) by blast
          qed
        qed
      qed
    qed
  qed
qed

lemma alloc_loop_terminates:
  "\<exists>res. alloc_loop E heap buffer rem mo pages i t = Some res"
proof (induction "unat rem" arbitrary: rem mo pages i t rule: less_induct)
  case less
  show ?case
  proof (cases "rem > 0")
    case False
    then have z: "rem = 0"
      by (simp add: word_neq_0_conv [symmetric])
    show ?thesis
      unfolding z by (simp add: alloc_loop.simps [of E heap buffer 0])
  next
    case True
    obtain r1 t1 where step: "alloc_largest_available E heap buffer rem mo t = (r1, t1)"
      by (cases "alloc_largest_available E heap buffer rem mo t")
    show ?thesis
    proof (cases r1)
      case (Inl e)
      then show ?thesis using True step
        by (simp add: alloc_loop.simps [of E heap buffer rem])
    next
      case (Inr oi)
      show ?thesis
      proof (cases oi)
        case None
        then show ?thesis using True step Inr
          by (simp add: alloc_loop.simps [of E heap buffer rem])
      next
        case (Some info)
        then have "order info \<in> set orders" "order_to_size (order info) \<le> rem"
          using alloc_largest_available_post [OF step] Inr by auto
        then have "unat (rem - run_bytes (order info)) < unat rem"
          using run_step [of "order info" rem] by linarith
        from less.hyps [OF this] show ?thesis
          using True step Inr Some
          by (simp add: alloc_loop.simps [of E heap buffer rem])
      qed
    qed
  qed
qed


lemma free_buffer_page_shrinker:
  "shrinker_free buffer \<Longrightarrow>
   free_buffer_page heap buffer pg ord t = (Inr (), t @ [Free_pages pg ord])"
  by (simp add: free_buffer_page_def)

lemma free_buffer_page_pool:
  assumes "\<not> shrinker_free buffer" and "ord \<in> set orders"
  shows "\<exists>pool. class_pool heap (buffer_cached buffer) ord = Some pool \<and>
           free_buffer_page heap buffer pg ord t = (Inr (), t @ [Page_pool_free pool pg])"
  using assms
  by (auto simp: orders_cases free_buffer_page_def class_pool_def order_to_index_table Let_def)

lemma allocate_err_post:
  assumes "\<forall>info \<in> set pages. order info \<in> set orders"
  shows "\<exists>rel. allocate_err heap buffer pages t = (Inl ENOMEM, t @ rel) \<and> acquired rel = [] \<and>
     (if shrinker_free buffer
      then pool_frees rel = [] \<and> direct_frees rel = map (\<lambda>info. (page info, order info)) pages
      else direct_frees rel = [] \<and>
           list_all2 (\<lambda>(pool, pg) info. pg = page info \<and>
                        class_pool heap (buffer_cached buffer) (order info) = Some pool)
             (pool_frees rel) pages)"
  using assms
proof (induction pages arbitrary: t)
  case Nil
  then show ?case by simp
next
  case (Cons info rest)
  have mem: "order info \<in> set orders" and rest: "\<forall>x \<in> set rest. order x \<in> set orders"
    using Cons.prems by auto
  show ?case
  proof (cases "shrinker_free buffer")
    case True
    from Cons.IH [OF rest, of "t @ [Free_pages (page info) (order info)]"] obtain rel where
      rel: "allocate_err heap buffer rest (t @ [Free_pages (page info) (order info)]) =
              (Inl ENOMEM, (t @ [Free_pages (page info) (order info)]) @ rel)"
        "acquired rel = []" "pool_frees rel = []"
        "direct_frees rel = map (\<lambda>info. (page info, order info)) rest"
      using True by auto
    show ?thesis
      apply (rule exI [of _ "Free_pages (page info) (order info) # rel"])
      using True rel by (simp add: free_buffer_page_shrinker)
  next
    case False
    obtain pool where pool: "class_pool heap (buffer_cached buffer) (order info) = Some pool"
      and fbp: "free_buffer_page heap buffer (page info) (order info) t =
                  (Inr (), t @ [Page_pool_free pool (page info)])"
      using free_buffer_page_pool [OF False mem] by blast
    from Cons.IH [OF rest, of "t @ [Page_pool_free pool (page info)]"] obtain rel where
      rel: "allocate_err heap buffer rest (t @ [Page_pool_free pool (page info)]) =
              (Inl ENOMEM, (t @ [Page_pool_free pool (page info)]) @ rel)"
        "acquired rel = []" "direct_frees rel = []"
        "list_all2 (\<lambda>(pool, pg) info. pg = page info \<and>
                        class_pool heap (buffer_cached buffer) (order info) = Some pool)
             (pool_frees rel) rest"
      using False by auto
    show ?thesis
      apply (rule exI [of _ "Page_pool_free pool (page info) # rel"])
      using False rel pool fbp by simp
  qed
qed



lemma allocate_run:
  assumes run: "ion_system_heap_allocate E heap buffer sz align flags t = Some (r, t')"
    and a: "\<not> PAGE_SIZE < align" and g: "\<not> totalram_pages E div 2 < sz div PAGE_SIZE"
  shows "\<exists>pages acq. assembled heap buffer pages acq \<and>
      (\<forall>info \<in> set pages. order info \<in> set orders) \<and> descending pages \<and>
      ((r = Inr (buffer\<lparr>priv_virt := Some (fill_table pages)\<rparr>) \<and> t' = t @ acq \<and>
        total_bytes pages = unat (PAGE_ALIGN sz)) \<or>
       (r, t') = allocate_err heap buffer pages (t @ acq))"
proof -
  obtain lr pages i t1 where
    loop: "alloc_loop E heap buffer (PAGE_ALIGN sz) (orders ! 0) [] 0 t = Some (lr, pages, i, t1)"
    using alloc_loop_terminates [of E heap buffer "PAGE_ALIGN sz" "orders ! 0" "[]" 0 t]
    by (metis prod_cases4)
  from alloc_loop_post [OF loop] obtain evs ok where
    post: "t1 = t @ evs" "assembled heap buffer pages evs"
      "\<forall>info \<in> set pages. order info \<in> set orders" "descending pages"
      "lr = Inr ok" "ok \<longrightarrow> total_bytes pages = unat (PAGE_ALIGN sz)"
    by auto
  have silent: "assembled heap buffer pages (evs @ extra)"
    if "acquired extra = []" "pool_frees extra = []" "direct_frees extra = []" for extra
    using post(2) that by (simp add: assembled_def)
  show ?thesis
  proof (cases ok)
    case False
    then have "(r, t') = allocate_err heap buffer pages (t @ evs)"
      using run a g loop post(1,5) by (simp add: ion_system_heap_allocate_def)
    then show ?thesis using post by blast
  next
    case True
    show ?thesis
    proof (cases "kmalloc E t1")
      case False
      then have "(r, t') = allocate_err heap buffer pages (t @ evs @ [Kmalloc False])"
        using run a g loop post(1,5) True by (simp add: ion_system_heap_allocate_def)
      moreover have "assembled heap buffer pages (evs @ [Kmalloc False])"
        by (rule silent) simp_all
      ultimately show ?thesis using post(3,4) by blast
    next
      case km: True
      show ?thesis
      proof (cases "sg_alloc_table E (t1 @ [Kmalloc True]) i")
        case (Some e)
        then have "(r, t') = allocate_err heap buffer pages
                      (t @ evs @ [Kmalloc True, Sg_alloc_table i (Some e)])"
          using run a g loop post(1,5) True km by (simp add: ion_system_heap_allocate_def)
        moreover have "assembled heap buffer pages (evs @ [Kmalloc True, Sg_alloc_table i (Some e)])"
          by (rule silent) simp_all
        ultimately show ?thesis using post(3,4) by blast
      next
        case None
        then have "r = Inr (buffer\<lparr>priv_virt := Some (fill_table pages)\<rparr>)"
            "t' = t @ evs @ [Kmalloc True, Sg_alloc_table i None]"
          using run a g loop post(1,5) True km by (simp_all add: ion_system_heap_allocate_def)
        moreover have "assembled heap buffer pages (evs @ [Kmalloc True, Sg_alloc_table i None])"
          by (rule silent) simp_all
        ultimately show ?thesis using post(3,4,6) True by blast
      qed
    qed
  qed
qed


subsection \<open>Rollback of a failed allocation\<close>




subsection \<open>A successful allocation\<close>

lemma allocate_success:
  assumes run: "ion_system_heap_allocate E heap buffer sz align flags t = Some (Inr buffer', t')"
  shows "\<exists>pages acq. buffer' = buffer\<lparr>priv_virt := Some (fill_table pages)\<rparr> \<and> t' = t @ acq \<and>
      assembled heap buffer pages acq \<and> (\<forall>info \<in> set pages. order info \<in> set orders) \<and>
      descending pages \<and> total_bytes pages = unat (PAGE_ALIGN sz)"
proof -
  have a: "\<not> PAGE_SIZE < align" and g: "\<not> totalram_pages E div 2 < sz div PAGE_SIZE"
    using run by (auto simp: ion_system_heap_allocate_def split: if_splits)
  from allocate_run [OF run a g] obtain pages acq where
    asm: "assembled heap buffer pages acq" "\<forall>info \<in> set pages. order info \<in> set orders"
      "descending pages"
    and alt: "(buffer' = buffer\<lparr>priv_virt := Some (fill_table pages)\<rparr> \<and> t' = t @ acq \<and>
        total_bytes pages = unat (PAGE_ALIGN sz)) \<or>
       (Inr buffer', t') = allocate_err heap buffer pages (t @ acq)"
    by auto
  have "(Inr buffer', t') \<noteq> allocate_err heap buffer pages (t @ acq)"
    using allocate_err_post [OF asm(2), of heap buffer "t @ acq"] by auto
  then show ?thesis using asm alt by blast
qed


lemma get_order_run_bytes: "ord \<in> set orders \<Longrightarrow> get_order (run_bytes ord) = ord"
  by (auto simp: orders_cases run_bytes_table get_order_table)

lemma sg_orders_fill_table:
  "\<forall>info \<in> set pages. order info \<in> set orders \<Longrightarrow>
   sg_orders (fill_table pages) = map order pages"
  by (induction pages) (simp_all add: sg_orders_def fill_table_def get_order_run_bytes)


lemma example_success_run:
  "ion_system_heap_allocate (example_env 1000 20 (\<lambda>p. 0)) example_heap
     (example_buffer\<lparr>buffer_cached := True\<rparr>) 1118213 0 0 [] =
   Some (Inr (example_buffer\<lparr>buffer_cached := True,
                priv_virt := Some [(101, 1048576), (103, 65536), (105, 4096), (107, 4096)]\<rparr>),
     [Kmalloc True, Page_pool_alloc 10 (Some 101), Kmalloc True,
      Page_pool_alloc 11 (Some 103), Kmalloc True,
      Page_pool_alloc 12 (Some 105), Kmalloc True,
      Page_pool_alloc 12 (Some 107), Kmalloc True, Sg_alloc_table 4 None])"
  by code_simp





text \<open>
  Claim C6. In the table of a successful allocation the orders of the segments, in
  table order, never increase. The order of a segment is \<open>get_order\<close> of its length,
  an \<open>int\<close>, so the comparison is the signed one.
\<close>

theorem allocate_orders_descend:
  assumes "ion_system_heap_allocate E heap buffer sz align flags t = Some (Inr buffer', t')"
  shows "\<exists>table. priv_virt buffer' = Some table \<and>
           sorted_wrt (\<lambda>a b. b \<le>s a) (sg_orders table)"
proof -
  from allocate_success [OF assms] obtain pages where
    b: "buffer' = buffer\<lparr>priv_virt := Some (fill_table pages)\<rparr>"
    and tab: "\<forall>info \<in> set pages. order info \<in> set orders"
    and desc: "descending pages"
    by blast
  have sle: "b \<le>s a" if "a \<in> set orders" "b \<in> set orders" "b \<le> a" for a b :: uint
    using that by (auto simp: orders_cases word_sle_eq)
  have "sorted_wrt (\<lambda>a b. order b \<le>s order a) pages"
    using desc tab unfolding descending_def
    by (induction pages) (auto intro: sle)
  then have "sorted_wrt (\<lambda>a b. b \<le>s a) (map order pages)"
    by (simp add: sorted_wrt_map)
  then show ?thesis
    using b tab by (simp add: sg_orders_fill_table)
qed

theorem allocate_orders_descend_witness:
  "\<exists>table.
     priv_virt (example_buffer\<lparr>buffer_cached := True,
        priv_virt := Some [(101, 1048576), (103, 65536), (105, 4096), (107, 4096)]\<rparr>) = Some table \<and>
     sg_orders table = [8, 4, 0, 0] \<and> sorted_wrt (\<lambda>a b. b \<le>s a) (sg_orders table)"
proof -
  from allocate_orders_descend [OF example_success_run] obtain table where
    tb: "priv_virt (example_buffer\<lparr>buffer_cached := True,
        priv_virt := Some [(101, 1048576), (103, 65536), (105, 4096), (107, 4096)]\<rparr>) = Some table"
    and srt: "sorted_wrt (\<lambda>a b. b \<le>s a) (sg_orders table)"
    by blast
  have "table = [(101, 1048576), (103, 65536), (105, 4096), (107, 4096)]"
    using tb by simp
  then have "sg_orders table = [8, 4, 0, 0]"
    by (simp add: sg_orders_def get_order_table)
  then show ?thesis using tb srt by blast
qed

subsection \<open>Freeing a buffer\<close>

lemma free_sg_post:
  assumes "\<forall>(pg, len) \<in> set table. \<exists>ord \<in> set orders. len = run_bytes ord"
  shows "\<exists>rel. free_sg heap buffer table t = (Inr (), t @ rel) \<and>
     (if shrinker_free buffer
      then rel = map (\<lambda>(pg, len). Free_pages pg (get_order len)) table
      else list_all2 (\<lambda>ev (pg, len). \<exists>pool.
               class_pool heap (buffer_cached buffer) (get_order len) = Some pool \<and>
               ev = Page_pool_free pool pg) rel table)"
  using assms
proof (induction table arbitrary: t)
  case Nil
  then show ?case by simp
next
  case (Cons seg rest)
  obtain pg len where seg: "seg = (pg, len)" by (cases seg)
  obtain ord where ord: "ord \<in> set orders" "len = run_bytes ord"
    using Cons.prems seg by auto
  then have go: "get_order len = ord"
    by (simp add: get_order_run_bytes)
  have rest: "\<forall>(pg, len) \<in> set rest. \<exists>ord \<in> set orders. len = run_bytes ord"
    using Cons.prems by simp
  show ?case
  proof (cases "shrinker_free buffer")
    case True
    from Cons.IH [OF rest, of "t @ [Free_pages pg ord]"] obtain rel where
      "free_sg heap buffer rest (t @ [Free_pages pg ord]) = (Inr (), (t @ [Free_pages pg ord]) @ rel)"
      "rel = map (\<lambda>(pg, len). Free_pages pg (get_order len)) rest"
      using True by auto
    then show ?thesis
      using True seg go by (simp add: free_buffer_page_shrinker)
  next
    case False
    obtain pool where pool: "class_pool heap (buffer_cached buffer) ord = Some pool"
      and fbp: "free_buffer_page heap buffer pg ord t = (Inr (), t @ [Page_pool_free pool pg])"
      using free_buffer_page_pool [OF False ord(1)] by blast
    from Cons.IH [OF rest, of "t @ [Page_pool_free pool pg]"] obtain rel where
      rel: "free_sg heap buffer rest (t @ [Page_pool_free pool pg]) =
              (Inr (), (t @ [Page_pool_free pool pg]) @ rel)"
      "list_all2 (\<lambda>ev (pg, len). \<exists>pool.
               class_pool heap (buffer_cached buffer) (get_order len) = Some pool \<and>
               ev = Page_pool_free pool pg) rel rest"
      using False by auto
    show ?thesis
      apply (rule exI [of _ "Page_pool_free pool pg # rel"])
      using False seg go pool fbp rel by simp
  qed
qed

text \<open>
  Claim C7. For a buffer whose segments have the lengths of configured page runs (the
  buffers this heap assembles), \<open>ion_system_heap_free\<close> returns without trapping and
  its trace is the following. Without the shrinker flag the buffer is zeroed first (for
  a cached buffer as well as for a non-cacheable one), and then every segment, in table
  order, is returned to the pool of its order and of the buffer's cacheability. With
  the shrinker flag nothing is zeroed and no pool is called: every segment is freed
  directly with \<open>__free_pages\<close>.
\<close>

theorem free_releases_every_run:
  assumes "\<forall>(pg, len) \<in> set (buffer_sg_table buffer). \<exists>ord \<in> set orders. len = run_bytes ord"
  shows "\<exists>rel. ion_system_heap_free heap buffer t =
           (Inr (), t @ (if shrinker_free buffer then [] else [Buffer_zero (buffer_sg_table buffer)]) @ rel) \<and>
     (if shrinker_free buffer
      then rel = map (\<lambda>(pg, len). Free_pages pg (get_order len)) (buffer_sg_table buffer)
      else list_all2 (\<lambda>ev (pg, len). \<exists>pool.
               class_pool heap (buffer_cached buffer) (get_order len) = Some pool \<and>
               ev = Page_pool_free pool pg) rel (buffer_sg_table buffer))"
proof (cases "shrinker_free buffer")
  case True
  from free_sg_post [OF assms, of heap buffer t] show ?thesis
    using True by (simp add: ion_system_heap_free_def Let_def)
next
  case False
  from free_sg_post [OF assms, of heap buffer "t @ [Buffer_zero (buffer_sg_table buffer)]"]
  show ?thesis
    using False by (simp add: ion_system_heap_free_def Let_def)
qed

theorem free_releases_every_run_witness:
  "run_bytes 4 = 65536 \<and> run_bytes 0 = 4096 \<and>
   ion_system_heap_free example_heap (example_buffer\<lparr>buffer_sg_table := [(7, 65536), (8, 4096)]\<rparr>) [] =
     (Inr (), [Buffer_zero [(7, 65536), (8, 4096)], Page_pool_free 1 7, Page_pool_free 2 8]) \<and>
   ion_system_heap_free example_heap
       (example_buffer\<lparr>buffer_sg_table := [(7, 65536), (8, 4096)], shrinker_free := True\<rparr>) [] =
     (Inr (), [Free_pages 7 4, Free_pages 8 0])"
proof -
  have h: "\<forall>(pg, len) \<in> set [(7 :: page, 65536), (8, 4096 :: uint)]. \<exists>ord \<in> set orders. len = run_bytes ord"
    by (simp add: orders_def run_bytes_table)
  have cp: "class_pool example_heap False 4 = Some 1" "class_pool example_heap False 0 = Some 2"
    by (simp_all add: class_pool_def order_to_index_table example_heap_def)
  have a: "ion_system_heap_free example_heap (example_buffer\<lparr>buffer_sg_table := [(7, 65536), (8, 4096)]\<rparr>) [] =
     (Inr (), [Buffer_zero [(7, 65536), (8, 4096)], Page_pool_free 1 7, Page_pool_free 2 8])"
    using free_releases_every_run [of "example_buffer\<lparr>buffer_sg_table := [(7, 65536), (8, 4096)]\<rparr>" example_heap "[]"] h cp
    by (auto simp: example_buffer_def get_order_table list_all2_Cons2)
  have b: "ion_system_heap_free example_heap
       (example_buffer\<lparr>buffer_sg_table := [(7, 65536), (8, 4096)], shrinker_free := True\<rparr>) [] =
     (Inr (), [Free_pages 7 4, Free_pages 8 0])"
    using free_releases_every_run [of "example_buffer\<lparr>buffer_sg_table := [(7, 65536), (8, 4096)], shrinker_free := True\<rparr>" example_heap "[]"] h
    by (auto simp: example_buffer_def get_order_table)
  show ?thesis by (intro conjI run_bytes_table a b)
qed

subsection \<open>The \<open>BUG()\<close> of \<open>order_to_index\<close> is unreachable\<close>

text \<open>
  Claim C10. No call of \<open>ion_system_heap_allocate\<close> ends in \<open>BUG()\<close>, whether it
  succeeds, fails early or rolls back. When it succeeds, every segment of the table has
  the byte length of a run of an order in the table \<open>{8, 4, 0}\<close>, \<open>get_order\<close> of
  that length is that order, \<open>order_to_index\<close> finds it, and freeing any buffer that
  carries this table returns without \<open>BUG()\<close>.
\<close>

theorem assembled_buffer_never_traps:
  assumes "ion_system_heap_allocate E heap buffer sz align flags t = Some (r, t')"
  shows "r \<noteq> Inl BUG \<and>
     (\<forall>buffer'. r = Inr buffer' \<longrightarrow>
        (\<exists>table. ion_system_heap_map_dma buffer' = Some table \<and>
           (\<forall>(pg, len) \<in> set table. \<exists>ord \<in> set orders.
               len = run_bytes ord \<and> get_order len = ord \<and>
               (\<exists>idx. order_to_index (get_order len) = Inr idx)) \<and>
           (\<forall>(fb :: ion_buffer) t0. buffer_sg_table fb = table \<longrightarrow>
               fst (ion_system_heap_free heap fb t0) = Inr ())))"
proof (intro conjI allI impI)
  show "r \<noteq> Inl BUG"
  proof (cases "PAGE_SIZE < align \<or> totalram_pages E div 2 < sz div PAGE_SIZE")
    case True
    then show ?thesis
      using assms by (auto simp: ion_system_heap_allocate_def split: if_splits)
  next
    case False
    then have a: "\<not> PAGE_SIZE < align" and g: "\<not> totalram_pages E div 2 < sz div PAGE_SIZE"
      by auto
    from allocate_run [OF assms a g] obtain pages acq where
      tab: "\<forall>info \<in> set pages. order info \<in> set orders"
      and alt: "r = Inr (buffer\<lparr>priv_virt := Some (fill_table pages)\<rparr>) \<or>
                (r, t') = allocate_err heap buffer pages (t @ acq)"
      by auto
    then show ?thesis
      using allocate_err_post [OF tab, of heap buffer "t @ acq"] by auto
  qed
next
  fix buffer'
  assume "r = Inr buffer'"
  then have run: "ion_system_heap_allocate E heap buffer sz align flags t = Some (Inr buffer', t')"
    using assms by simp
  from allocate_success [OF run] obtain pages where
    b: "buffer' = buffer\<lparr>priv_virt := Some (fill_table pages)\<rparr>"
    and tab: "\<forall>info \<in> set pages. order info \<in> set orders"
    by blast
  have segs: "\<forall>(pg, len) \<in> set (fill_table pages). \<exists>ord \<in> set orders. len = run_bytes ord"
    using tab by (auto simp: fill_table_def)
  have idx: "\<exists>idx. order_to_index ord = Inr idx" if "ord \<in> set orders" for ord
    using that by (auto simp: orders_cases order_to_index_table)
  show "\<exists>table. ion_system_heap_map_dma buffer' = Some table \<and>
           (\<forall>(pg, len) \<in> set table. \<exists>ord \<in> set orders.
               len = run_bytes ord \<and> get_order len = ord \<and>
               (\<exists>idx. order_to_index (get_order len) = Inr idx)) \<and>
           (\<forall>(fb :: ion_buffer) t0. buffer_sg_table fb = table \<longrightarrow>
               fst (ion_system_heap_free heap fb t0) = Inr ())"
  proof (intro exI [of _ "fill_table pages"] conjI allI impI)
    show "ion_system_heap_map_dma buffer' = Some (fill_table pages)"
      using b by (simp add: ion_system_heap_map_dma_def)
    show "\<forall>(pg, len) \<in> set (fill_table pages). \<exists>ord \<in> set orders.
               len = run_bytes ord \<and> get_order len = ord \<and>
               (\<exists>idx. order_to_index (get_order len) = Inr idx)"
    proof (clarify)
      fix pg len
      assume "(pg, len) \<in> set (fill_table pages)"
      then obtain info where info: "info \<in> set pages" "len = run_bytes (order info)"
        by (auto simp: fill_table_def)
      then have mem: "order info \<in> set orders" using tab by blast
      have "get_order len = order info"
        using info(2) mem by (simp add: get_order_run_bytes)
      then show "\<exists>ord \<in> set orders. len = run_bytes ord \<and> get_order len = ord \<and>
               (\<exists>idx. order_to_index (get_order len) = Inr idx)"
        using info(2) mem idx [OF mem] by auto
    qed
  next
    fix fb :: ion_buffer and t0
    assume "buffer_sg_table fb = fill_table pages"
    then have "\<forall>(pg, len) \<in> set (buffer_sg_table fb). \<exists>ord \<in> set orders. len = run_bytes ord"
      using segs by simp
    from free_sg_post [OF this, of heap fb]
    have "\<exists>rel. free_sg heap fb (buffer_sg_table fb) t1 = (Inr (), t1 @ rel)" for t1
      by blast
    then have "fst (free_sg heap fb (buffer_sg_table fb) t1) = Inr ()" for t1
      by (metis fst_conv)
    then show "fst (ion_system_heap_free heap fb t0) = Inr ()"
      by (simp add: ion_system_heap_free_def Let_def)
  qed
qed

theorem assembled_buffer_never_traps_witness:
  "ion_system_heap_allocate (example_env 1000 20 (\<lambda>p. 0)) example_heap
     (example_buffer\<lparr>buffer_cached := True\<rparr>) 1118213 0 0 [] \<noteq> None \<and>
   order_to_index (get_order 1048576) = Inr 0 \<and> order_to_index (get_order 65536) = Inr 1 \<and>
   order_to_index (get_order 4096) = Inr 2 \<and>
   fst (ion_system_heap_free example_heap
          (example_buffer\<lparr>buffer_cached := True,
             buffer_sg_table := [(101, 1048576), (103, 65536), (105, 4096), (107, 4096)]\<rparr>) []) =
     Inr ()"
proof -
  let ?tb = "[(101 :: page, 1048576), (103, 65536), (105, 4096), (107, 4096 :: uint)]"
  from assembled_buffer_never_traps [OF example_success_run] obtain table where
    tb: "ion_system_heap_map_dma (example_buffer\<lparr>buffer_cached := True, priv_virt := Some ?tb\<rparr>) =
           Some table"
    and free: "\<forall>(fb :: ion_buffer) t0. buffer_sg_table fb = table \<longrightarrow>
               fst (ion_system_heap_free example_heap fb t0) = Inr ()"
    by blast
  have eq: "table = ?tb"
    using tb by (simp add: ion_system_heap_map_dma_def)
  have 1: "ion_system_heap_allocate (example_env 1000 20 (\<lambda>p. 0)) example_heap
     (example_buffer\<lparr>buffer_cached := True\<rparr>) 1118213 0 0 [] \<noteq> None"
    using example_success_run by simp
  have 2: "order_to_index (get_order 1048576) = Inr 0" "order_to_index (get_order 65536) = Inr 1"
    "order_to_index (get_order 4096) = Inr 2"
    by (simp_all add: get_order_table order_to_index_table)
  have 3: "fst (ion_system_heap_free example_heap
          (example_buffer\<lparr>buffer_cached := True, buffer_sg_table := ?tb\<rparr>) []) = Inr ()"
    using free unfolding eq by simp
  show ?thesis by (intro conjI 1 2 3)
qed

subsection \<open>Termination of the assembly loop\<close>

lemma PAGE_ALIGN_multiple: "unat PAGE_SIZE dvd unat (PAGE_ALIGN x)"
proof -
  have m: "PAGE_SIZE - 1 = (mask 12 :: ulong)"
    by (simp add: PAGE_SIZE_val mask_eq_decr_exp)
  have "PAGE_ALIGN x AND mask 12 = 0"
    unfolding PAGE_ALIGN_def m by (simp add: and.assoc)
  then have "2 ^ 12 dvd unat (PAGE_ALIGN x)"
    by (simp only: and_mask_dvd_nat)
  then show ?thesis by (simp add: PAGE_SIZE_val)
qed

lemma alloc_scan_order0:
  assumes "0 \<in> set ords" and "set ords \<subseteq> set orders"
    and "order_to_size 0 \<le> rem"
    and "class_pool heap (buffer_cached buffer) 0 = Some pool0"
    and "\<forall>t1. ion_page_pool_alloc E t1 pool0 \<noteq> None"
  shows "\<exists>info t1. alloc_scan E heap buffer rem mo ords t = (Inr (Some info), t1)"
  using assms(1,2)
proof (induction ords arbitrary: t)
  case Nil
  then show ?case by simp
next
  case (Cons ord rest)
  have mem: "ord \<in> set orders" using Cons.prems(2) by simp
  obtain pool where pool: "class_pool heap (buffer_cached buffer) ord = Some pool"
    and abp: "alloc_buffer_page E heap buffer ord t =
      (Inr (ion_page_pool_alloc E t pool), t @ [Page_pool_alloc pool (ion_page_pool_alloc E t pool)])"
    using alloc_buffer_page_table [OF mem] by blast
  show ?case
  proof (cases "ord = 0")
    case True
    then have "pool = pool0" using pool assms(4) by simp
    then obtain pg where "ion_page_pool_alloc E t pool = Some pg"
      using assms(5) by auto
    then show ?thesis
      using True assms(3) abp by (simp add: not_less [symmetric])
  next
    case False
    then have rest: "0 \<in> set rest" "set rest \<subseteq> set orders"
      using Cons.prems by auto
    note IH = Cons.IH [OF rest]
    show ?thesis
    proof (cases "rem < order_to_size ord \<or> mo < ord")
      case True
      then show ?thesis using IH [of t] by auto
    next
      case skip: False
      show ?thesis
      proof (cases "ion_page_pool_alloc E t pool")
        case None
        then show ?thesis
          using skip abp IH [of "t @ [Page_pool_alloc pool None]"] by simp
      next
        case (Some pg)
        then show ?thesis using skip abp by simp
      qed
    qed
  qed
qed

lemma example_step:
  "alloc_largest_available (plentiful_env 1000) example_heap example_buffer 8192 8 [] =
     (Inr (Some \<lparr>page = 101, order = 0\<rparr>), [Kmalloc True, Page_pool_alloc 2 (Some 101)])"
  by code_simp

text \<open>
  Claim C9. \<open>ion_system_heap_allocate\<close> returns for every input and every
  environment, and so does the loop from any state. Each iteration that acquires a run
  acquires at least one page, not more than the remainder, and leaves a strictly smaller
  remainder, which stays a multiple of the page size as \<open>PAGE_ALIGN(size)\<close> is one;
  an iteration that acquires nothing ends the loop. For a nonzero remainder that is a
  multiple of the page size, if \<open>kmalloc\<close> succeeds and the order-0 pool of the
  buffer's bank yields a page whenever asked, a run is acquired. The table of orders is
  strictly descending and ends with order 0.
\<close>

theorem allocate_loop_terminates:
  "(\<exists>res. ion_system_heap_allocate E heap buffer sz align flags t = Some res) \<and>
   (\<exists>res. alloc_loop E heap buffer rem mo pages i t = Some res) \<and>
   (\<forall>info t1. alloc_largest_available E heap buffer rem mo t = (Inr (Some info), t1) \<longrightarrow>
      PAGE_SIZE \<le> run_bytes (order info) \<and> run_bytes (order info) \<le> rem \<and>
      rem - run_bytes (order info) < rem \<and>
      (unat PAGE_SIZE dvd unat rem \<longrightarrow> unat PAGE_SIZE dvd unat (rem - run_bytes (order info)))) \<and>
   unat PAGE_SIZE dvd unat (PAGE_ALIGN sz) \<and>
   (\<forall>pool0. rem \<noteq> 0 \<and> unat PAGE_SIZE dvd unat rem \<and> kmalloc E t \<and>
      class_pool heap (buffer_cached buffer) 0 = Some pool0 \<and>
      (\<forall>t1. ion_page_pool_alloc E t1 pool0 \<noteq> None) \<longrightarrow>
      (\<exists>info t1. alloc_largest_available E heap buffer rem mo t = (Inr (Some info), t1))) \<and>
   sorted_wrt (\<lambda>a b. b < a) orders \<and> last orders = 0"
proof (intro conjI allI impI)
  obtain res where "alloc_loop E heap buffer (PAGE_ALIGN sz) (orders ! 0) [] 0 t = Some res"
    using alloc_loop_terminates by blast
  then show "\<exists>res. ion_system_heap_allocate E heap buffer sz align flags t = Some res"
    by (cases res rule: prod_cases4)
       (auto simp: ion_system_heap_allocate_def Let_def split: sum.splits bool.splits option.splits)
  show "\<exists>res. alloc_loop E heap buffer rem mo pages i t = Some res"
    by (rule alloc_loop_terminates)
  show "unat PAGE_SIZE dvd unat (PAGE_ALIGN sz)"
    by (rule PAGE_ALIGN_multiple)
  show "sorted_wrt (\<lambda>a b. b < a) orders" "last orders = 0"
    by (simp_all add: orders_def)
next
  fix info t1
  assume step: "alloc_largest_available E heap buffer rem mo t = (Inr (Some info), t1)"
  from alloc_largest_available_post [OF step]
  have mem: "order info \<in> set orders" and fit: "order_to_size (order info) \<le> rem"
    by auto
  have eq: "run_bytes (order info) = order_to_size (order info)"
    and pg: "PAGE_SIZE \<le> run_bytes (order info)"
    and mult: "unat PAGE_SIZE dvd unat (run_bytes (order info))"
    using mem by (auto simp: orders_cases run_bytes_table order_to_size_table PAGE_SIZE_val)
  have dec: "unat (rem - run_bytes (order info)) + unat (run_bytes (order info)) = unat rem"
    and pos: "4096 \<le> unat (run_bytes (order info))"
    using run_step [OF mem fit] by auto
  show "PAGE_SIZE \<le> run_bytes (order info)" by (rule pg)
  show "run_bytes (order info) \<le> rem" using fit eq by simp
  show "rem - run_bytes (order info) < rem"
    using dec pos by (simp add: word_less_nat_alt)
  show "unat PAGE_SIZE dvd unat (rem - run_bytes (order info))" if "unat PAGE_SIZE dvd unat rem"
  proof -
    have "unat (rem - run_bytes (order info)) = unat rem - unat (run_bytes (order info))"
      using dec by linarith
    then show ?thesis using that mult by (simp add: dvd_diff_nat)
  qed
next
  fix pool0
  assume h: "rem \<noteq> 0 \<and> unat PAGE_SIZE dvd unat rem \<and> kmalloc E t \<and>
      class_pool heap (buffer_cached buffer) 0 = Some pool0 \<and>
      (\<forall>t1. ion_page_pool_alloc E t1 pool0 \<noteq> None)"
  then have "unat rem \<noteq> 0" "4096 dvd unat rem"
    by (simp_all add: unat_eq_0 PAGE_SIZE_val)
  then have "4096 \<le> unat rem"
    by (auto elim!: dvdE)
  then have fit: "order_to_size 0 \<le> rem"
    by (simp add: order_to_size_table word_le_nat_alt)
  have "0 \<in> set orders" by (simp add: orders_def)
  from alloc_scan_order0 [OF this subset_refl fit, of heap buffer pool0 E mo "t @ [Kmalloc True]"]
  show "\<exists>info t1. alloc_largest_available E heap buffer rem mo t = (Inr (Some info), t1)"
    using h by (simp add: alloc_largest_available_def)
qed


theorem allocate_loop_terminates_witness:
  "(\<exists>res. ion_system_heap_allocate (plentiful_env 1000) example_heap example_buffer 8192 0 0 [] =
      Some res) \<and>
   alloc_largest_available (plentiful_env 1000) example_heap example_buffer 8192 8 [] =
     (Inr (Some \<lparr>page = 101, order = 0\<rparr>), [Kmalloc True, Page_pool_alloc 2 (Some 101)]) \<and>
   PAGE_SIZE \<le> run_bytes 0 \<and> run_bytes 0 \<le> 8192 \<and> 8192 - run_bytes 0 < (8192 :: ulong) \<and>
   unat PAGE_SIZE dvd unat (8192 :: ulong) \<and> unat PAGE_SIZE dvd unat (8192 - run_bytes 0) \<and>
   class_pool example_heap (buffer_cached example_buffer) 0 = Some 2 \<and>
   (\<forall>t1. ion_page_pool_alloc (plentiful_env 1000) t1 2 \<noteq> None) \<and>
   (\<exists>info t1. alloc_largest_available (plentiful_env 1000) example_heap example_buffer 8192 8 [] =
      (Inr (Some info), t1))"
proof -
  note inst = allocate_loop_terminates [of "plentiful_env 1000" example_heap example_buffer
      8192 0 0 "[]" 8192 8 "[]" 0]
  have mult: "unat PAGE_SIZE dvd unat (8192 :: ulong)"
    by (simp add: PAGE_SIZE_val)
  have cp: "class_pool example_heap (buffer_cached example_buffer) 0 = Some 2"
    by (simp add: class_pool_def order_to_index_table example_heap_def example_buffer_def)
  have yields: "\<forall>t1. ion_page_pool_alloc (plentiful_env 1000) t1 2 \<noteq> None"
    by (simp add: plentiful_env_def)
  have km: "kmalloc (plentiful_env 1000) []"
    by (simp add: plentiful_env_def)
  have 1: "\<exists>res. ion_system_heap_allocate (plentiful_env 1000) example_heap example_buffer 8192 0 0 [] =
      Some res"
    using inst by blast
  have 2: "PAGE_SIZE \<le> run_bytes 0 \<and> run_bytes 0 \<le> 8192 \<and> 8192 - run_bytes 0 < (8192 :: ulong) \<and>
     unat PAGE_SIZE dvd unat (8192 - run_bytes 0 :: ulong)"
    using inst example_step mult by fastforce
  have 3: "\<exists>info t1. alloc_largest_available (plentiful_env 1000) example_heap example_buffer 8192 8 [] =
      (Inr (Some info), t1)"
  proof (rule inst [THEN conjunct2, THEN conjunct2, THEN conjunct2, THEN conjunct2,
                    THEN conjunct1, rule_format, of 2])
    show "(8192 :: ulong) \<noteq> 0 \<and> unat PAGE_SIZE dvd unat (8192 :: ulong) \<and>
      kmalloc (plentiful_env 1000) [] \<and>
      class_pool example_heap (buffer_cached example_buffer) 0 = Some 2 \<and>
      (\<forall>t1. ion_page_pool_alloc (plentiful_env 1000) t1 2 \<noteq> None)"
      using mult cp yields km by simp
  qed
  show ?thesis
    using 1 2 3 example_step mult cp yields by (intro conjI) simp_all
qed

subsection \<open>The argument checks of \<open>ion_system_heap_allocate\<close>\<close>

lemma example_guard_miss_run:
  "ion_system_heap_allocate (example_env 2 20 empty_pools) example_heap example_buffer 4097 0 0 [] =
   Some (Inr (example_buffer\<lparr>priv_virt := Some [(101, 4096), (103, 4096)]\<rparr>),
     [Kmalloc True, Page_pool_alloc 2 (Some 101), Kmalloc True,
      Page_pool_alloc 2 (Some 103), Kmalloc True, Sg_alloc_table 2 None])"
  by code_simp

text \<open>
  Claim C3, as stated, fails. With two pages of memory in total, half of memory is 4096
  bytes. A request of 4097 bytes rounds up to 8192 bytes, which exceeds it, yet the call
  succeeds and takes two pages: the check compares \<open>size / PAGE_SIZE\<close>, rounded down,
  with \<open>totalram_pages / 2\<close>.
\<close>

theorem allocate_size_guard_counterexample:
  "unat (totalram_pages (example_env 2 20 empty_pools)) * unat PAGE_SIZE div 2 < unat (PAGE_ALIGN 4097) \<and>
   ion_system_heap_allocate (example_env 2 20 empty_pools) example_heap example_buffer 4097 0 0 [] =
     Some (Inr (example_buffer\<lparr>priv_virt := Some [(101, 4096), (103, 4096)]\<rparr>),
       [Kmalloc True, Page_pool_alloc 2 (Some 101), Kmalloc True,
        Page_pool_alloc 2 (Some 103), Kmalloc True, Sg_alloc_table 2 None])"
proof
  show "unat (totalram_pages (example_env 2 20 empty_pools)) * unat PAGE_SIZE div 2 < unat (PAGE_ALIGN 4097)"
    by (simp add: example_env_def PAGE_ALIGN_def PAGE_SIZE_val)
  show "ion_system_heap_allocate (example_env 2 20 empty_pools) example_heap example_buffer 4097 0 0 [] =
     Some (Inr (example_buffer\<lparr>priv_virt := Some [(101, 4096), (103, 4096)]\<rparr>),
       [Kmalloc True, Page_pool_alloc 2 (Some 101), Kmalloc True,
        Page_pool_alloc 2 (Some 103), Kmalloc True, Sg_alloc_table 2 None])"
    by (rule example_guard_miss_run)
qed

text \<open>
  Claim C3, amended. \<open>ion_system_heap_allocate\<close> returns \<open>EINVAL\<close> if and only if
  the alignment exceeds one page. When the alignment does not exceed one page and the
  size divided by the page size, rounded down, exceeds half of the total page count,
  rounded down, it returns \<open>ENOMEM\<close> with the trace unchanged: no pool was asked and
  no page taken.
\<close>

theorem allocate_argument_checks:
  "((\<exists>t'. ion_system_heap_allocate E heap buffer sz align flags t = Some (Inl EINVAL, t')) \<longleftrightarrow>
      PAGE_SIZE < align) \<and>
   (align \<le> PAGE_SIZE \<and> totalram_pages E div 2 < sz div PAGE_SIZE \<longrightarrow>
      ion_system_heap_allocate E heap buffer sz align flags t = Some (Inl ENOMEM, t))"
proof (intro conjI iffI impI)
  assume "PAGE_SIZE < align"
  then show "\<exists>t'. ion_system_heap_allocate E heap buffer sz align flags t = Some (Inl EINVAL, t')"
    by (simp add: ion_system_heap_allocate_def)
next
  assume "align \<le> PAGE_SIZE \<and> totalram_pages E div 2 < sz div PAGE_SIZE"
  then show "ion_system_heap_allocate E heap buffer sz align flags t = Some (Inl ENOMEM, t)"
    by (simp add: ion_system_heap_allocate_def not_less [symmetric])
next
  assume "\<exists>t'. ion_system_heap_allocate E heap buffer sz align flags t = Some (Inl EINVAL, t')"
  then obtain t' where run: "ion_system_heap_allocate E heap buffer sz align flags t = Some (Inl EINVAL, t')"
    by blast
  show "PAGE_SIZE < align"
  proof (rule ccontr)
    assume a: "\<not> PAGE_SIZE < align"
    show False
    proof (cases "totalram_pages E div 2 < sz div PAGE_SIZE")
      case True
      then show False using run a by (simp add: ion_system_heap_allocate_def)
    next
      case False
      from allocate_run [OF run a False] obtain pages acq where
        tab: "\<forall>info \<in> set pages. order info \<in> set orders"
        and err: "(Inl EINVAL, t') = allocate_err heap buffer pages (t @ acq)"
        by auto
      then show False
        using allocate_err_post [OF tab, of heap buffer "t @ acq"] by auto
    qed
  qed
qed

theorem allocate_argument_checks_witness:
  "PAGE_SIZE < 4097 \<and>
   (\<exists>t'. ion_system_heap_allocate (example_env 2 20 empty_pools) example_heap example_buffer 8192 4097 0 [] =
      Some (Inl EINVAL, t')) \<and>
   (0 :: ulong) \<le> PAGE_SIZE \<and>
   totalram_pages (example_env 2 20 empty_pools) div 2 < 8192 div PAGE_SIZE \<and>
   ion_system_heap_allocate (example_env 2 20 empty_pools) example_heap example_buffer 8192 0 0 [] =
     Some (Inl ENOMEM, [])"
proof -
  have a: "PAGE_SIZE < 4097" and b: "(0 :: ulong) \<le> PAGE_SIZE"
    and g: "totalram_pages (example_env 2 20 empty_pools) div 2 < 8192 div PAGE_SIZE"
    by (simp_all add: PAGE_SIZE_val example_env_def)
  have 1: "\<exists>t'. ion_system_heap_allocate (example_env 2 20 empty_pools) example_heap example_buffer 8192 4097 0 [] =
      Some (Inl EINVAL, t')"
    using allocate_argument_checks [of "example_env 2 20 empty_pools" example_heap example_buffer
        8192 4097 0 "[]"] a by blast
  have 2: "ion_system_heap_allocate (example_env 2 20 empty_pools) example_heap example_buffer 8192 0 0 [] =
     Some (Inl ENOMEM, [])"
    using allocate_argument_checks [of "example_env 2 20 empty_pools" example_heap example_buffer
        8192 0 0 "[]"] b g by blast
  show ?thesis by (intro conjI a b g 1 2)
qed

subsection \<open>The contiguous heap\<close>









subsection \<open>The shrinker\<close>

lemma shrink_total_post:
  "shrink_total E heap g idxs tot t = (tot', t') \<Longrightarrow>
   \<exists>answers. length answers = 2 * length idxs \<and>
     t' = t @ map (\<lambda>(pool, ans). Page_pool_shrink pool g 0 ans)
                (zip (concat (map (\<lambda>i. [uncached_pools heap i, cached_pools heap i]) idxs)) answers) \<and>
     tot' = tot + sum_list answers"
proof (induction idxs arbitrary: tot t)
  case Nil
  then show ?case by simp
next
  case (Cons i rest)
  let ?r1 = "ion_page_pool_shrink E t (uncached_pools heap i) g 0"
  let ?t1 = "t @ [Page_pool_shrink (uncached_pools heap i) g 0 ?r1]"
  let ?r2 = "ion_page_pool_shrink E ?t1 (cached_pools heap i) g 0"
  let ?t2 = "?t1 @ [Page_pool_shrink (cached_pools heap i) g 0 ?r2]"
  have "shrink_total E heap g rest (tot + ?r1 + ?r2) ?t2 = (tot', t')"
    using Cons.prems by (simp add: Let_def)
  from Cons.IH [OF this] obtain answers where
    a: "length answers = 2 * length rest"
      "t' = ?t2 @ map (\<lambda>(pool, ans). Page_pool_shrink pool g 0 ans)
                (zip (concat (map (\<lambda>i. [uncached_pools heap i, cached_pools heap i]) rest)) answers)"
      "tot' = (tot + ?r1 + ?r2) + sum_list answers"
    by blast
  show ?case
    by (rule exI [of _ "?r1 # ?r2 # answers"]) (use a in \<open>simp add: add.assoc\<close>)
qed

lemma shrink_drain_post:
  "shrink_drain E heap g n idxs f t = (f', t') \<Longrightarrow>
   \<exists>answers. length answers \<le> 2 * length idxs \<and> (idxs \<noteq> [] \<longrightarrow> answers \<noteq> []) \<and>
     t' = t @ map (\<lambda>(pool, ans). Page_pool_shrink pool g n ans)
                (zip (concat (map (\<lambda>i. [uncached_pools heap i, cached_pools heap i]) idxs)) answers) \<and>
     f' = f + sum_list answers \<and>
     (\<forall>k. 0 < k \<and> k < length answers \<longrightarrow> \<not> n \<le>s f + sum_list (take k answers)) \<and>
     (length answers < 2 * length idxs \<longrightarrow> n \<le>s f + sum_list answers)"
proof (induction idxs arbitrary: f t)
  case Nil
  then show ?case by simp
next
  case (Cons i rest)
  let ?r1 = "ion_page_pool_shrink E t (uncached_pools heap i) g n"
  let ?t1 = "t @ [Page_pool_shrink (uncached_pools heap i) g n ?r1]"
  let ?r2 = "ion_page_pool_shrink E ?t1 (cached_pools heap i) g n"
  let ?t2 = "?t1 @ [Page_pool_shrink (cached_pools heap i) g n ?r2]"
  show ?case
  proof (cases "n \<le>s f + ?r1")
    case True
    then have "f' = f + ?r1" "t' = ?t1"
      using Cons.prems by (simp_all add: Let_def)
    then show ?thesis
      using True by (intro exI [of _ "[?r1]"]) simp
  next
    case n1: False
    show ?thesis
    proof (cases "n \<le>s f + ?r1 + ?r2")
      case True
      then have "f' = f + ?r1 + ?r2" "t' = ?t2"
        using Cons.prems n1 by (simp_all add: Let_def)
      then show ?thesis
        using True n1 by (intro exI [of _ "[?r1, ?r2]"]) (auto simp: add.assoc less_Suc_eq)
    next
      case n2: False
      then have "shrink_drain E heap g n rest (f + ?r1 + ?r2) ?t2 = (f', t')"
        using Cons.prems n1 by (simp add: Let_def)
      from Cons.IH [OF this] obtain answers where
        a: "length answers \<le> 2 * length rest"
          "t' = ?t2 @ map (\<lambda>(pool, ans). Page_pool_shrink pool g n ans)
                (zip (concat (map (\<lambda>i. [uncached_pools heap i, cached_pools heap i]) rest)) answers)"
          "f' = (f + ?r1 + ?r2) + sum_list answers"
          "\<forall>k. 0 < k \<and> k < length answers \<longrightarrow> \<not> n \<le>s (f + ?r1 + ?r2) + sum_list (take k answers)"
          "length answers < 2 * length rest \<longrightarrow> n \<le>s (f + ?r1 + ?r2) + sum_list answers"
        by blast
      have mid: "\<not> n \<le>s f + sum_list (take k (?r1 # ?r2 # answers))"
        if k: "0 < k" "k < length (?r1 # ?r2 # answers)" for k
      proof -
        consider "k = 1" | "k = 2" | k' where "k = Suc (Suc k')" "0 < k'"
          using k(1) by (metis One_nat_def Suc_1 gr0_implies_Suc neq0_conv)
        then show ?thesis
        proof cases
          case 1
          then show ?thesis using n1 by simp
        next
          case 2
          then show ?thesis using n2 by (simp add: numeral_2_eq_2 add.assoc)
        next
          case 3
          then have "k' < length answers" using k(2) by simp
          then have "\<not> n \<le>s (f + ?r1 + ?r2) + sum_list (take k' answers)"
            using a(4) 3(2) by blast
          then show ?thesis using 3(1) by (simp add: add.assoc)
        qed
      qed
      show ?thesis
      proof (intro exI [of _ "?r1 # ?r2 # answers"] conjI allI impI)
        show "length (?r1 # ?r2 # answers) \<le> 2 * length (i # rest)" using a(1) by simp
        show "?r1 # ?r2 # answers \<noteq> []" by simp
        show "t' = t @ map (\<lambda>(pool, ans). Page_pool_shrink pool g n ans)
                (zip (concat (map (\<lambda>i. [uncached_pools heap i, cached_pools heap i]) (i # rest)))
                   (?r1 # ?r2 # answers))"
          using a(2) by simp
        show "f' = f + sum_list (?r1 # ?r2 # answers)" using a(3) by (simp add: add.assoc)
        show "n \<le>s f + sum_list (?r1 # ?r2 # answers)"
          if "length (?r1 # ?r2 # answers) < 2 * length (i # rest)"
          using that a(5) by (simp add: add.assoc)
        show "\<not> n \<le>s f + sum_list (take k (?r1 # ?r2 # answers))"
          if "0 < k \<and> k < length (?r1 # ?r2 # answers)" for k
          using that mid by blast
      qed
    qed
  qed
qed


lemma drain_calls_append [simp]: "drain_calls (xs @ ys) = drain_calls xs @ drain_calls ys"
  by (induction xs rule: drain_calls.induct) simp_all

lemma drain_calls_drains:
  "n \<noteq> 0 \<Longrightarrow>
   drain_calls (map (\<lambda>(pool, ans). Page_pool_shrink pool g n ans) xs) =
     map (\<lambda>(pool, ans). (pool, n, ans)) xs"
  by (induction xs) auto

lemma drain_calls_queries:
  "drain_calls (map (\<lambda>(pool, ans). Page_pool_shrink pool g 0 ans) xs) = []"
  by (induction xs) auto

lemma heap_pools_length: "length (heap_pools heap) = 2 * length [0..<num_orders]"
  by (simp add: heap_pools_def num_orders_def orders_def upt_rec)

lemma example_shrink_run:
  "ion_system_heap_shrink (example_env 2 20 pools_of_three) example_heap 0 5 [] =
     (12, [Page_pool_shrink 0 0 5 3, Page_pool_shrink 10 0 5 3,
           Page_pool_shrink 0 0 0 0, Page_pool_shrink 10 0 0 0,
           Page_pool_shrink 1 0 0 3, Page_pool_shrink 11 0 0 3,
           Page_pool_shrink 2 0 0 3, Page_pool_shrink 12 0 0 3])"
  by code_simp

lemma example_query_run:
  "ion_system_heap_shrink (example_env 2 20 pools_of_three) example_heap 0 0 [] =
     (18, [Page_pool_shrink 0 0 0 3, Page_pool_shrink 10 0 0 3,
           Page_pool_shrink 1 0 0 3, Page_pool_shrink 11 0 0 3,
           Page_pool_shrink 2 0 0 3, Page_pool_shrink 12 0 0 3])"
  by code_simp

text \<open>
  Claim C2, as stated, fails. With three pages resident in every pool and a target of
  five, the first pool is asked for five and releases three; the second pool is asked
  for five again, not for the outstanding two.
\<close>

theorem shrink_outstanding_need_counterexample:
  "drain_calls (snd (ion_system_heap_shrink (example_env 2 20 pools_of_three) example_heap 0 5 [])) =
     [(0, 5, 3), (10, 5, 3)] \<and>
   \<not> within_outstanding_need 5 0
       (drain_calls (snd (ion_system_heap_shrink (example_env 2 20 pools_of_three) example_heap 0 5 [])))"
  by (simp add: example_shrink_run word_sle_eq)

text \<open>
  Claim C2, amended. For a nonzero target the shrinker asks the pools in a fixed order:
  by size class, largest first, and within a class the uncached pool before the cached
  one. Every pool it asks is asked for the full target, whatever was released before.
  At least one pool is asked; the next pool is asked only while the cumulative count
  released is below the target (in the signed comparison of \<open>int\<close>), and if not every
  pool was asked, the cumulative count has reached the target. What follows in the trace
  are inventory queries only.
\<close>

theorem shrink_drains_in_order:
  assumes "nr_to_scan \<noteq> 0"
  shows "\<exists>answers inv.
     snd (ion_system_heap_shrink E heap gfp_mask nr_to_scan t) =
       t @ map (\<lambda>(pool, ans). Page_pool_shrink pool gfp_mask nr_to_scan ans)
             (zip (heap_pools heap) answers) @ inv \<and>
     drain_calls inv = [] \<and>
     answers \<noteq> [] \<and> length answers \<le> length (heap_pools heap) \<and>
     (\<forall>k. 0 < k \<and> k < length answers \<longrightarrow> \<not> nr_to_scan \<le>s sum_list (take k answers)) \<and>
     (length answers < length (heap_pools heap) \<longrightarrow> nr_to_scan \<le>s sum_list answers)"
proof -
  obtain f' t1 where d: "shrink_drain E heap gfp_mask nr_to_scan [0..<num_orders] 0 t = (f', t1)"
    by (cases "shrink_drain E heap gfp_mask nr_to_scan [0..<num_orders] 0 t")
  obtain tot t2 where tt: "shrink_total E heap gfp_mask [0..<num_orders] 0 t1 = (tot, t2)"
    by (cases "shrink_total E heap gfp_mask [0..<num_orders] 0 t1")
  have ne: "[0..<num_orders] \<noteq> []"
    by (simp add: num_orders_def orders_def)
  from shrink_drain_post [OF d] ne obtain answers where
    a: "length answers \<le> 2 * length [0..<num_orders]" "answers \<noteq> []"
      "t1 = t @ map (\<lambda>(pool, ans). Page_pool_shrink pool gfp_mask nr_to_scan ans)
                (zip (heap_pools heap) answers)"
      "\<forall>k. 0 < k \<and> k < length answers \<longrightarrow> \<not> nr_to_scan \<le>s 0 + sum_list (take k answers)"
      "length answers < 2 * length [0..<num_orders] \<longrightarrow> nr_to_scan \<le>s 0 + sum_list answers"
    unfolding heap_pools_def by blast
  from shrink_total_post [OF tt] obtain qs where
    q: "t2 = t1 @ map (\<lambda>(pool, ans). Page_pool_shrink pool gfp_mask 0 ans)
                (zip (heap_pools heap) qs)"
    unfolding heap_pools_def by blast
  have run: "snd (ion_system_heap_shrink E heap gfp_mask nr_to_scan t) = t2"
    using assms d tt by (simp add: ion_system_heap_shrink_def)
  show ?thesis
  proof (intro exI [of _ answers]
      exI [of _ "map (\<lambda>(pool, ans). Page_pool_shrink pool gfp_mask 0 ans) (zip (heap_pools heap) qs)"]
      conjI)
    show "snd (ion_system_heap_shrink E heap gfp_mask nr_to_scan t) =
       t @ map (\<lambda>(pool, ans). Page_pool_shrink pool gfp_mask nr_to_scan ans)
             (zip (heap_pools heap) answers) @
       map (\<lambda>(pool, ans). Page_pool_shrink pool gfp_mask 0 ans) (zip (heap_pools heap) qs)"
      using run q a(3) by simp
    show "drain_calls (map (\<lambda>(pool, ans). Page_pool_shrink pool gfp_mask 0 ans)
             (zip (heap_pools heap) qs)) = []"
      by (rule drain_calls_queries)
    show "answers \<noteq> []" by (rule a(2))
    show "length answers \<le> length (heap_pools heap)"
      using a(1) by (simp add: heap_pools_length)
    show "\<forall>k. 0 < k \<and> k < length answers \<longrightarrow> \<not> nr_to_scan \<le>s sum_list (take k answers)"
      using a(4) by simp
    show "length answers < length (heap_pools heap) \<longrightarrow> nr_to_scan \<le>s sum_list answers"
      using a(5) by (simp add: heap_pools_length)
  qed
qed

theorem shrink_drains_in_order_witness:
  "\<exists>answers inv.
     snd (ion_system_heap_shrink (example_env 2 20 pools_of_three) example_heap 0 5 []) =
       map (\<lambda>(pool, ans). Page_pool_shrink pool 0 5 ans) (zip (heap_pools example_heap) answers) @ inv \<and>
     heap_pools example_heap = [0, 10, 1, 11, 2, 12] \<and>
     answers = [3, 3] \<and> \<not> 5 \<le>s sum_list (take 1 answers) \<and> 5 \<le>s sum_list answers \<and>
     inv = [Page_pool_shrink 0 0 0 0, Page_pool_shrink 10 0 0 0,
            Page_pool_shrink 1 0 0 3, Page_pool_shrink 11 0 0 3,
            Page_pool_shrink 2 0 0 3, Page_pool_shrink 12 0 0 3]"
proof -
  have nz: "(5 :: cint) \<noteq> 0" by simp
  have hp: "heap_pools example_heap = [0, 10, 1, 11, 2, 12]"
    by (simp add: heap_pools_def example_heap_def num_orders_def orders_def upt_rec)
  let ?tr = "[Page_pool_shrink 0 0 5 3, Page_pool_shrink 10 0 5 3,
      Page_pool_shrink 0 0 0 0, Page_pool_shrink 10 0 0 0,
      Page_pool_shrink 1 0 0 3, Page_pool_shrink 11 0 0 3,
      Page_pool_shrink 2 0 0 3, Page_pool_shrink 12 0 0 3]"
  have run: "snd (ion_system_heap_shrink (example_env 2 20 pools_of_three) example_heap 0 5 []) = ?tr"
    by (simp add: example_shrink_run)
  from shrink_drains_in_order [OF nz, of "example_env 2 20 pools_of_three" example_heap 0 "[]"]
  obtain answers inv where
    tr: "?tr = map (\<lambda>(pool, ans). Page_pool_shrink pool 0 5 ans)
                  (zip (heap_pools example_heap) answers) @ inv"
    and q: "drain_calls inv = []"
    and len: "length answers \<le> length (heap_pools example_heap)"
    unfolding run by auto
  have "drain_calls ?tr = map (\<lambda>(pool, ans). (pool, 5, ans)) (zip (heap_pools example_heap) answers)"
    by (subst tr) (simp add: drain_calls_drains q)
  then have "map (\<lambda>(pool, ans). (pool, 5 :: cint, ans)) (zip (heap_pools example_heap) answers) =
      [(0, 5, 3), (10, 5, 3)]"
    by simp
  then have "map (snd \<circ> snd) (map (\<lambda>(pool, ans). (pool, 5 :: cint, ans)) (zip (heap_pools example_heap) answers)) =
      map (snd \<circ> snd) [(0 :: pool, 5 :: cint, 3 :: cint), (10, 5, 3)]"
    by (rule arg_cong)
  then have "map snd (zip (heap_pools example_heap) answers) = [3, 3]"
    by (simp add: comp_def case_prod_unfold)
  then have ans: "answers = [3, 3]"
    using len by (simp add: map_snd_zip_take)
  then have inv: "inv = drop 2 ?tr"
    using tr hp by simp
  show ?thesis
    apply (rule exI [of _ answers], rule exI [of _ inv])
    using run tr hp ans inv by (simp add: word_sle_eq)
qed

text \<open>
  Claim C4. Whatever the target, the value returned is the sum of the answers of a final
  pass that asks every pool of both banks, in order, with a count of 0, the pool's
  inventory query; it is not the count released by the draining calls. With a target of
  zero the queries are the only calls made, so nothing is released. With a nonzero
  target the calls before the final pass all carry the target as their count.
\<close>

theorem shrink_returns_inventory:
  "\<exists>drain answers.
     ion_system_heap_shrink E heap gfp_mask nr_to_scan t =
       (sum_list answers,
        t @ drain @ map (\<lambda>(pool, ans). Page_pool_shrink pool gfp_mask 0 ans)
                      (zip (heap_pools heap) answers)) \<and>
     length answers = length (heap_pools heap) \<and>
     (nr_to_scan = 0 \<longrightarrow> drain = []) \<and>
     (\<forall>ev \<in> set drain. \<exists>pool ans. ev = Page_pool_shrink pool gfp_mask nr_to_scan ans)"
proof -
  let ?t1 = "if nr_to_scan = 0 then t
             else snd (shrink_drain E heap gfp_mask nr_to_scan [0..<num_orders] 0 t)"
  obtain tot t2 where tt: "shrink_total E heap gfp_mask [0..<num_orders] 0 ?t1 = (tot, t2)"
    by (cases "shrink_total E heap gfp_mask [0..<num_orders] 0 ?t1")
  from shrink_total_post [OF tt] obtain qs where
    q: "length qs = 2 * length [0..<num_orders]"
      "t2 = ?t1 @ map (\<lambda>(pool, ans). Page_pool_shrink pool gfp_mask 0 ans)
                (zip (heap_pools heap) qs)"
      "tot = 0 + sum_list qs"
    unfolding heap_pools_def by blast
  have run: "ion_system_heap_shrink E heap gfp_mask nr_to_scan t = (sum_list qs, t2)"
    using tt q(3) by (simp add: ion_system_heap_shrink_def)
  obtain drain where dr: "?t1 = t @ drain" "nr_to_scan = 0 \<longrightarrow> drain = []"
    "\<forall>ev \<in> set drain. \<exists>pool ans. ev = Page_pool_shrink pool gfp_mask nr_to_scan ans"
  proof (cases "nr_to_scan = 0")
    case True
    then show ?thesis using that [of "[]"] by simp
  next
    case False
    obtain f' t1 where d: "shrink_drain E heap gfp_mask nr_to_scan [0..<num_orders] 0 t = (f', t1)"
      by (cases "shrink_drain E heap gfp_mask nr_to_scan [0..<num_orders] 0 t")
    from shrink_drain_post [OF d] obtain answers where
      t1: "t1 = t @ map (\<lambda>(pool, ans). Page_pool_shrink pool gfp_mask nr_to_scan ans)
                (zip (heap_pools heap) answers)"
      unfolding heap_pools_def by blast
    define dr where "dr = map (\<lambda>(pool, ans). Page_pool_shrink pool gfp_mask nr_to_scan ans)
                (zip (heap_pools heap) answers)"
    have 1: "?t1 = t @ dr"
      using False d t1 by (simp add: dr_def)
    have 2: "nr_to_scan = 0 \<longrightarrow> dr = []"
      using False by simp
    have 3: "\<forall>ev \<in> set dr. \<exists>pool ans. ev = Page_pool_shrink pool gfp_mask nr_to_scan ans"
      unfolding dr_def by auto
    show ?thesis by (rule that [OF 1 2 3])
  qed
  show ?thesis
  proof (intro exI [of _ drain] exI [of _ qs] conjI)
    show "ion_system_heap_shrink E heap gfp_mask nr_to_scan t =
       (sum_list qs,
        t @ drain @ map (\<lambda>(pool, ans). Page_pool_shrink pool gfp_mask 0 ans)
                      (zip (heap_pools heap) qs))"
      using run q(2) dr(1) by simp
    show "length qs = length (heap_pools heap)"
      using q(1) by (simp add: heap_pools_length)
    show "nr_to_scan = 0 \<longrightarrow> drain = []" by (rule dr(2))
    show "\<forall>ev \<in> set drain. \<exists>pool ans. ev = Page_pool_shrink pool gfp_mask nr_to_scan ans"
      by (rule dr(3))
  qed
qed


theorem shrink_returns_inventory_witness:
  "\<exists>drain answers.
     ion_system_heap_shrink (example_env 2 20 pools_of_three) example_heap 0 0 [] =
       (sum_list answers,
        [] @ drain @ map (\<lambda>(pool, ans). Page_pool_shrink pool 0 0 ans)
                      (zip (heap_pools example_heap) answers)) \<and>
     drain = [] \<and> sum_list answers = 18 \<and>
     ion_system_heap_shrink (example_env 2 20 pools_of_three) example_heap 0 5 [] =
       (12, [Page_pool_shrink 0 0 5 3, Page_pool_shrink 10 0 5 3,
           Page_pool_shrink 0 0 0 0, Page_pool_shrink 10 0 0 0,
           Page_pool_shrink 1 0 0 3, Page_pool_shrink 11 0 0 3,
           Page_pool_shrink 2 0 0 3, Page_pool_shrink 12 0 0 3])"
proof -
  from shrink_returns_inventory [of "example_env 2 20 pools_of_three" example_heap 0 0 "[]"]
  obtain drain answers where
    r: "ion_system_heap_shrink (example_env 2 20 pools_of_three) example_heap 0 0 [] =
       (sum_list answers,
        [] @ drain @ map (\<lambda>(pool, ans). Page_pool_shrink pool 0 0 ans)
                      (zip (heap_pools example_heap) answers))"
    and d: "drain = []"
    by blast
  have "sum_list answers = 18"
    using r example_query_run by simp
  then show ?thesis
    using r d example_shrink_run by blast
qed

end
